theory Spec2Isabelle
  imports Main "HOL-Library.Sublist"
begin

section \<open>JavaScript strings\<close>

text \<open>
  A JavaScript string is a sequence of UTF-16 code units. It is modelled as a \<^typ>\<open>string\<close>;
  one \<^typ>\<open>char\<close> stands for one code unit below 256 (Basic Latin and Latin-1), which is the
  range the redirect table, the regular expressions and the identifiers of the repository
  are written in.
\<close>

text \<open>\<^verbatim>\<open>String.prototype.indexOf(searchString)\<close>: the least position at which
  \<open>pat\<close> starts, \<open>None\<close> for \<^verbatim>\<open>-1\<close>.\<close>

fun indexOf :: "string \<Rightarrow> string \<Rightarrow> nat option" where
  "indexOf [] pat = (if pat = [] then Some 0 else None)"
| "indexOf (c # s) pat =
     (if prefix pat (c # s) then Some 0 else map_option Suc (indexOf s pat))"

text \<open>\<^verbatim>\<open>String.prototype.includes(searchString)\<close>.\<close>

definition includes_str :: "string \<Rightarrow> string \<Rightarrow> bool" where
  "includes_str s pat = (indexOf s pat \<noteq> None)"

text \<open>
  The abstract operation \<^verbatim>\<open>GetSubstitution\<close> of ECMAScript for a string pattern: there
  are no capture groups, so only \<^verbatim>\<open>$$\<close>, \<^verbatim>\<open>$&\<close>, \<^verbatim>\<open>$`\<close> and \<^verbatim>\<open>$'\<close> are
  expanded in the replacement template; \<^verbatim>\<open>$1\<close>, \<^verbatim>\<open>$<\<close> and a lone \<^verbatim>\<open>$\<close> stay as written.
\<close>

fun getSubstitution :: "string \<Rightarrow> string \<Rightarrow> nat \<Rightarrow> string \<Rightarrow> string" where
  "getSubstitution matched str position [] = []"
| "getSubstitution matched str position [c] = [c]"
| "getSubstitution matched str position (c # d # rest) =
     (if c \<noteq> CHR ''$'' then c # getSubstitution matched str position (d # rest)
      else if d = CHR ''$'' then CHR ''$'' # getSubstitution matched str position rest
      else if d = CHR ''&'' then matched @ getSubstitution matched str position rest
      else if d = CHR 0x60 then take position str @ getSubstitution matched str position rest
      else if d = CHR 0x27 then
        drop (position + length matched) str @ getSubstitution matched str position rest
      else CHR ''$'' # getSubstitution matched str position (d # rest))"

text \<open>\<^verbatim>\<open>String.prototype.replace(searchValue, replaceValue)\<close> with a string
  \<open>searchValue\<close>: only the first occurrence is replaced.\<close>

definition replace :: "string \<Rightarrow> string \<Rightarrow> string \<Rightarrow> string" where
  "replace s searchValue replaceValue =
     (case indexOf s searchValue of
        None \<Rightarrow> s
      | Some pos \<Rightarrow>
          take pos s @ getSubstitution searchValue s pos replaceValue
            @ drop (pos + length searchValue) s)"

section \<open>Request redirector (redirector.js)\<close>

record RedirectRule =
  rule_from :: string
  rule_to :: string

definition urlMappings :: "RedirectRule list" where
  "urlMappings =
     [\<lparr>rule_from = ''https://cdn.nitrome.com/components/NitromeAPI.pkg'',
       rule_to = ''https://cdn.xperia.pt/NitromeAPI.pkg''\<rparr>,
      \<lparr>rule_from = ''https://jogos.ipv7.pt/txtGDE.swf'',
       rule_to = ''https://cdn.xperia.pt/laserquest/txtGDE.swf''\<rparr>,
      \<lparr>rule_from = ''https://jogos.ipv7.pt/faq.swf'',
       rule_to = ''https://cdn.xperia.pt/laserquest/faq.swf''\<rparr>,
      \<lparr>rule_from = ''https://jogos.ipv7.pt/hora.swf'',
       rule_to = ''https://cdn.xperia.pt/laserquest/hora.swf''\<rparr>,
      \<lparr>rule_from = ''https://jogos.ipv7.pt/nov.swf'',
       rule_to = ''https://cdn.xperia.pt/laserquest/nov.swf''\<rparr>]"

text \<open>The \<^verbatim>\<open>for (const mapping of urlMappings)\<close> loop of \<^verbatim>\<open>redirectUrl\<close>, over the
  mappings still to be tried.\<close>

fun redirectUrl_loop :: "RedirectRule list \<Rightarrow> string \<Rightarrow> string" where
  "redirectUrl_loop [] url = url"
| "redirectUrl_loop (mapping # rest) url =
     (if includes_str url (rule_from mapping)
      then replace url (rule_from mapping) (rule_to mapping)
      else redirectUrl_loop rest url)"

definition redirectUrl :: "string \<Rightarrow> string" where
  "redirectUrl url = redirectUrl_loop urlMappings url"

section \<open>Recently played list (game-loader-enhancer)\<close>

text \<open>
  \<^verbatim>\<open>addToRecentlyPlayed\<close> reads the list stored under \<^verbatim>\<open>gameLoader_recentlyPlayed\<close>
  (\<open>None\<close>: the key is absent and \<^verbatim>\<open>'[]'\<close> is parsed instead), filters, unshifts, pops
  once and writes the list back. The function returns the stored list after the call.
  The stored value is a list of ids; a value that does not parse to an array makes the
  call throw into its \<^verbatim>\<open>catch\<close> block, which leaves the storage as it was.
\<close>

definition addToRecentlyPlayed :: "string \<Rightarrow> string list option \<Rightarrow> string list" where
  "addToRecentlyPlayed gameId stored =
     (let recentlyPlayed = (case stored of None \<Rightarrow> [] | Some l \<Rightarrow> l);
          recentlyPlayed = filter (\<lambda>i. i \<noteq> gameId) recentlyPlayed;
          recentlyPlayed = gameId # recentlyPlayed
      in if length recentlyPlayed > 10 then butlast recentlyPlayed else recentlyPlayed)"

section \<open>Character classes, case mapping and regular-expression replacement\<close>

text \<open>\<^verbatim>\<open>String.prototype.toLowerCase\<close> on code units below 256: the letters A to Z and the
  Latin-1 capitals (192 to 222 without the multiplication sign 215) move up by 32.\<close>

definition toLowerCase_char :: "char \<Rightarrow> char" where
  "toLowerCase_char c =
     (let n = (of_char c :: nat)
      in if (65 \<le> n \<and> n \<le> 90) \<or> (192 \<le> n \<and> n \<le> 222 \<and> n \<noteq> 215)
         then char_of (n + 32) else c)"

definition toLowerCase :: "string \<Rightarrow> string" where
  "toLowerCase s = map toLowerCase_char s"

text \<open>The class \<^verbatim>\<open>[a-z0-9]\<close>.\<close>

definition is_az09 :: "char \<Rightarrow> bool" where
  "is_az09 c =
     (let n = (of_char c :: nat) in (97 \<le> n \<and> n \<le> 122) \<or> (48 \<le> n \<and> n \<le> 57))"

text \<open>The class \<^verbatim>\<open>\w\<close>, that is \<^verbatim>\<open>[A-Za-z0-9_]\<close>.\<close>

definition is_word :: "char \<Rightarrow> bool" where
  "is_word c =
     (let n = (of_char c :: nat)
      in (65 \<le> n \<and> n \<le> 90) \<or> (97 \<le> n \<and> n \<le> 122) \<or> (48 \<le> n \<and> n \<le> 57) \<or> n = 95)"

text \<open>The class \<^verbatim>\<open>\s\<close> and the characters removed by \<^verbatim>\<open>trim()\<close>: white space and line
  terminators; below 256 these are TAB, LF, VT, FF, CR, SPACE and NBSP.\<close>

definition is_space :: "char \<Rightarrow> bool" where
  "is_space c = ((of_char c :: nat) \<in> {9, 10, 11, 12, 13, 32, 160})"

definition is_hyphen :: "char \<Rightarrow> bool" where
  "is_hyphen c = (c = CHR ''-'')"

text \<open>\<^verbatim>\<open>String.prototype.trim()\<close>.\<close>

definition trim :: "string \<Rightarrow> string" where
  "trim s = rev (dropWhile is_space (rev (dropWhile is_space s)))"

text \<open>
  \<^verbatim>\<open>str.replace(/re/g, rep)\<close> for a pattern that never matches the empty string and a
  replacement without \<^verbatim>\<open>$\<close>. The matcher is given whether the scan is at the start of the
  input (for \<^verbatim>\<open>^\<close>) and the input from the current position on, and returns the length of
  the match that starts here, if there is one. The scan goes from left to right: a match
  is replaced and the scan resumes behind it, any other character is copied.
\<close>

function replace_g :: "(bool \<Rightarrow> string \<Rightarrow> nat option) \<Rightarrow> string \<Rightarrow> bool \<Rightarrow> string \<Rightarrow> string" where
  "replace_g m rep at_start [] = []"
| "replace_g m rep at_start (c # s) =
     (case m at_start (c # s) of
        None \<Rightarrow> c # replace_g m rep False s
      | Some n \<Rightarrow>
          if n = 0 then c # replace_g m rep False s
          else rep @ replace_g m rep False (drop n (c # s)))"
  by pat_completeness auto
termination
  by (relation "measure (\<lambda>(m, rep, at_start, s). length s)") auto

text \<open>The pattern \<^verbatim>\<open>[class]+\<close>: the greedy run of characters of the class.\<close>

definition match_plus :: "(char \<Rightarrow> bool) \<Rightarrow> bool \<Rightarrow> string \<Rightarrow> nat option" where
  "match_plus cls at_start s =
     (let n = length (takeWhile cls s) in if n > 0 then Some n else None)"

text \<open>The pattern \<^verbatim>\<open>[class]\<close>: one character of the class.\<close>

definition match_one :: "(char \<Rightarrow> bool) \<Rightarrow> bool \<Rightarrow> string \<Rightarrow> nat option" where
  "match_one cls at_start s =
     (case s of [] \<Rightarrow> None | c # _ \<Rightarrow> if cls c then Some 1 else None)"

text \<open>The pattern \<^verbatim>\<open>^-+|-+$\<close>: a run of hyphens at the start of the input, or else a run
  of hyphens that reaches the end of the input.\<close>

definition match_edge_hyphens :: "bool \<Rightarrow> string \<Rightarrow> nat option" where
  "match_edge_hyphens at_start s =
     (let n = length (takeWhile is_hyphen s)
      in if at_start \<and> n > 0 then Some n
         else if n > 0 \<and> n = length s then Some n
         else None)"

section \<open>Slug and identifier normalizers\<close>

text \<open>\<^verbatim>\<open>makeUrlFriendly\<close> of game-url-loader.js.\<close>

definition makeUrlFriendly :: "string \<Rightarrow> string" where
  "makeUrlFriendly str =
     (if str = [] then []
      else trim
             (replace_g match_edge_hyphens [] True
               (replace_g (match_plus (\<lambda>c. \<not> is_az09 c)) ''-'' True
                 (toLowerCase str))))"

text \<open>\<^verbatim>\<open>createSlug\<close> of the game loader enhancer.\<close>

definition createSlug :: "string \<Rightarrow> string" where
  "createSlug str =
     (if str = [] then []
      else replace_g match_edge_hyphens [] True
             (replace_g (match_plus is_hyphen) ''-'' True
               (replace_g (match_plus is_space) ''-'' True
                 (replace_g (match_one (\<lambda>c. \<not> (is_word c \<or> is_space c \<or> is_hyphen c))) [] True
                   (trim (toLowerCase str))))))"

text \<open>
  The normalizer as the specification words it: lower-case the input, replace every
  maximal run of characters outside \<^verbatim>\<open>[a-z0-9]\<close> with a single separator, strip leading
  and trailing separators.
\<close>

function collapse_runs :: "(char \<Rightarrow> bool) \<Rightarrow> string \<Rightarrow> string" where
  "collapse_runs cls [] = []"
| "collapse_runs cls (c # s) =
     (if cls c then CHR ''-'' # collapse_runs cls (dropWhile cls s)
      else c # collapse_runs cls s)"
  by pat_completeness auto
termination
  by (relation "measure (\<lambda>(cls, s). length s)") (auto simp: length_dropWhile_le less_Suc_eq_le)

definition strip_separators :: "string \<Rightarrow> string" where
  "strip_separators s = rev (dropWhile is_hyphen (rev (dropWhile is_hyphen s)))"

definition normalize_spec :: "string \<Rightarrow> string" where
  "normalize_spec s = strip_separators (collapse_runs (\<lambda>c. \<not> is_az09 c) (toLowerCase s))"

section \<open>JavaScript values of the catalog\<close>

text \<open>
  A value produced by \<^verbatim>\<open>JSON.parse\<close>. The property list of an object is in the order in
  which JavaScript enumerates own properties. Of a number the code only uses whether it is
  zero (truthiness).
\<close>

datatype json =
    JNull
  | JBool bool
  | JNum int
  | JStr string
  | JArr "json list"
  | JObj "(string \<times> json) list"

text \<open>What a property read can give: \<^verbatim>\<open>undefined\<close>, a parsed value, or an object that every
  JavaScript realm provides (named by how it is reached from \<^verbatim>\<open>Object.prototype\<close>).\<close>

datatype jsval = Undefined | Val json | Builtin string

datatype error = TypeError

definition bind_err :: "error + 'a \<Rightarrow> ('a \<Rightarrow> error + 'b) \<Rightarrow> error + 'b" where
  "bind_err r f = (case r of Inl e \<Rightarrow> Inl e | Inr v \<Rightarrow> f v)"

fun truthy :: "json \<Rightarrow> bool" where
  "truthy JNull = False"
| "truthy (JBool b) = b"
| "truthy (JNum n) = (n \<noteq> 0)"
| "truthy (JStr s) = (s \<noteq> [])"
| "truthy (JArr xs) = True"
| "truthy (JObj ps) = True"

fun truthy_val :: "jsval \<Rightarrow> bool" where
  "truthy_val Undefined = False"
| "truthy_val (Val v) = truthy v"
| "truthy_val (Builtin n) = True"

text \<open>
  Reading a property that no built-in prototype defines (\<^verbatim>\<open>id\<close>, \<^verbatim>\<open>name\<close>,
  \<^verbatim>\<open>nitromeGames\<close>): on \<^verbatim>\<open>null\<close> it throws, on an object it is the own property, on
  an array, a string, a number or a boolean it is \<^verbatim>\<open>undefined\<close>.
\<close>

fun get_member :: "json \<Rightarrow> string \<Rightarrow> error + jsval" where
  "get_member JNull k = Inl TypeError"
| "get_member (JObj ps) k = Inr (case map_of ps k of None \<Rightarrow> Undefined | Some v \<Rightarrow> Val v)"
| "get_member v k = Inr Undefined"

text \<open>\<^verbatim>\<open>x.toLowerCase()\<close> for a truthy \<open>x\<close>: only a string has the method.\<close>

fun call_toLowerCase :: "jsval \<Rightarrow> error + string" where
  "call_toLowerCase (Val (JStr s)) = Inr (toLowerCase s)"
| "call_toLowerCase v = Inl TypeError"

subsection \<open>Property order of ordinary objects\<close>

definition is_digit :: "char \<Rightarrow> bool" where
  "is_digit c = (48 \<le> (of_char c :: nat) \<and> (of_char c :: nat) \<le> 57)"

definition decimal_value :: "string \<Rightarrow> int" where
  "decimal_value k = foldl (\<lambda>n c. 10 * n + ((of_char c :: int) - 48)) 0 k"

text \<open>An array index is a canonical decimal string below \<open>2^32 - 1\<close>. Such keys are
  enumerated first, in ascending order; all other keys follow in the order of creation.\<close>

definition is_array_index :: "string \<Rightarrow> bool" where
  "is_array_index k =
     (k \<noteq> [] \<and> list_all is_digit k \<and> (k = ''0'' \<or> hd k \<noteq> CHR ''0'') \<and>
      decimal_value k < 4294967295)"

fun insert_index :: "string \<Rightarrow> 'v \<Rightarrow> (string \<times> 'v) list \<Rightarrow> (string \<times> 'v) list" where
  "insert_index k v [] = [(k, v)]"
| "insert_index k v ((k', v') # ps) =
     (if is_array_index k' \<and> decimal_value k' < decimal_value k
      then (k', v') # insert_index k v ps
      else (k, v) # (k', v') # ps)"

text \<open>Defining or assigning a data property: an existing key keeps its place and takes the
  new value, a new key is placed by the order above.\<close>

definition obj_set :: "(string \<times> 'v) list \<Rightarrow> string \<Rightarrow> 'v \<Rightarrow> (string \<times> 'v) list" where
  "obj_set ps k v =
     (if k \<in> fst ` set ps then map (\<lambda>p. if fst p = k then (k, v) else p) ps
      else if is_array_index k then insert_index k v ps
      else ps @ [(k, v)])"

function digits_of :: "nat \<Rightarrow> string" where
  "digits_of n = (if n < 10 then [char_of (48 + n)] else digits_of (n div 10) @ [char_of (48 + n mod 10)])"
  by pat_completeness auto
termination
  by (relation "measure (\<lambda>n. n)") auto

text \<open>The own enumerable string-keyed properties, as \<^verbatim>\<open>Object.entries\<close>, \<^verbatim>\<open>Object.keys\<close>
  and object spread see them.\<close>

fun own_entries :: "json \<Rightarrow> (string \<times> json) list" where
  "own_entries (JObj ps) = ps"
| "own_entries (JArr xs) = zip (map digits_of [0..<length xs]) xs"
| "own_entries (JStr s) = zip (map digits_of [0..<length s]) (map (\<lambda>c. JStr [c]) s)"
| "own_entries v = []"

text \<open>The object literal \<^verbatim>\<open>{id: id, ...game}\<close>.\<close>

definition object_with_id :: "string \<Rightarrow> json \<Rightarrow> json" where
  "object_with_id i game =
     JObj (foldl (\<lambda>ps (k, v). obj_set ps k v) [(''id'', JStr i)] (own_entries game))"

subsection \<open>The lookup table, an ordinary object used as a dictionary\<close>

text \<open>
  \<^verbatim>\<open>processedGames\<close> starts as \<^verbatim>\<open>{}\<close>: an object whose prototype is \<^verbatim>\<open>Object.prototype\<close>.
  Assigning to the key \<^verbatim>\<open>__proto__\<close> runs the setter inherited from \<^verbatim>\<open>Object.prototype\<close>,
  which replaces the prototype and creates no own property.
\<close>

datatype prototype = ObjectPrototype | NullPrototype | ObjectValue json

record table =
  own :: "(string \<times> json) list"
  proto :: prototype

definition empty_table :: table where
  "empty_table = \<lparr>own = [], proto = ObjectPrototype\<rparr>"

text \<open>The property names of \<^verbatim>\<open>Object.prototype\<close>.\<close>

definition object_prototype_names :: "string list" where
  "object_prototype_names =
     [''constructor'', ''hasOwnProperty'', ''isPrototypeOf'', ''propertyIsEnumerable'',
      ''toLocaleString'', ''toString'', ''valueOf'', ''__defineGetter__'',
      ''__defineSetter__'', ''__lookupGetter__'', ''__lookupSetter__'']"

definition object_prototype_get :: "prototype \<Rightarrow> string \<Rightarrow> jsval" where
  "object_prototype_get receiver_proto k =
     (if k = ''__proto__'' then
        (case receiver_proto of
           ObjectPrototype \<Rightarrow> Builtin ''Object.prototype''
         | NullPrototype \<Rightarrow> Val JNull
         | ObjectValue g \<Rightarrow> Val g)
      else if k \<in> set object_prototype_names then Builtin k
      else Undefined)"

text \<open>\<^verbatim>\<open>gamesData[key]\<close>: the own property, else what the prototype chain gives.\<close>

definition table_get :: "table \<Rightarrow> string \<Rightarrow> jsval" where
  "table_get t k =
     (case map_of (own t) k of
        Some v \<Rightarrow> Val v
      | None \<Rightarrow>
          (case proto t of
             NullPrototype \<Rightarrow> Undefined
           | ObjectPrototype \<Rightarrow> object_prototype_get (proto t) k
           | ObjectValue g \<Rightarrow>
               (case map_of (own_entries g) k of
                  Some v \<Rightarrow> Val v
                | None \<Rightarrow> object_prototype_get (proto t) k)))"

text \<open>\<^verbatim>\<open>processedGames[key] = value\<close>.\<close>

definition table_set :: "table \<Rightarrow> string \<Rightarrow> json \<Rightarrow> table" where
  "table_set t k v =
     (if k = ''__proto__'' \<and> k \<notin> fst ` set (own t) \<and>
         (case proto t of
            ObjectPrototype \<Rightarrow> True
          | NullPrototype \<Rightarrow> False
          | ObjectValue g \<Rightarrow> k \<notin> fst ` set (own_entries g))
      then (case v of
              JObj ps \<Rightarrow> t\<lparr>proto := ObjectValue v\<rparr>
            | JArr xs \<Rightarrow> t\<lparr>proto := ObjectValue v\<rparr>
            | JNull \<Rightarrow> t\<lparr>proto := NullPrototype\<rparr>
            | _ \<Rightarrow> t)
      else t\<lparr>own := obj_set (own t) k v\<rparr>)"

section \<open>Catalog store: \<^verbatim>\<open>loadGamesData\<close>\<close>

text \<open>The callback \<^verbatim>\<open>game => { if (game.id) processedGames[game.id.toLowerCase()] = game }\<close>
  that cases 2, 3 and 4 run over an array.\<close>

definition add_game :: "table \<Rightarrow> json \<Rightarrow> error + table" where
  "add_game processedGames game =
     bind_err (get_member game ''id'') (\<lambda>i.
       if truthy_val i
       then bind_err (call_toLowerCase i) (\<lambda>key. Inr (table_set processedGames key game))
       else Inr processedGames)"

fun add_games :: "table \<Rightarrow> json list \<Rightarrow> error + table" where
  "add_games processedGames [] = Inr processedGames"
| "add_games processedGames (game # rest) =
     bind_err (add_game processedGames game) (\<lambda>t. add_games t rest)"

text \<open>Case 1: every entry of a plain object whose value has \<^verbatim>\<open>typeof\<close> \<^verbatim>\<open>'object'\<close> is
  stored under its lower-cased key.\<close>

fun typeof_object :: "json \<Rightarrow> bool" where
  "typeof_object JNull = True"
| "typeof_object (JArr xs) = True"
| "typeof_object (JObj ps) = True"
| "typeof_object v = False"

fun isArray :: "json \<Rightarrow> bool" where
  "isArray (JArr xs) = True"
| "isArray v = False"

fun direct_entries :: "table \<Rightarrow> (string \<times> json) list \<Rightarrow> table" where
  "direct_entries processedGames [] = processedGames"
| "direct_entries processedGames ((i, game) # rest) =
     direct_entries
       (if typeof_object game
        then table_set processedGames (toLowerCase i) (object_with_id i game)
        else processedGames) rest"

text \<open>Case 3: every other key of the document whose value is an array.\<close>

fun other_collections :: "table \<Rightarrow> (string \<times> json) list \<Rightarrow> error + table" where
  "other_collections processedGames [] = Inr processedGames"
| "other_collections processedGames ((collectionKey, v) # rest) =
     bind_err
       (case v of
          JArr games \<Rightarrow>
            if collectionKey \<noteq> ''nitromeGames'' then add_games processedGames games
            else Inr processedGames
        | _ \<Rightarrow> Inr processedGames)
       (\<lambda>t. other_collections t rest)"

text \<open>The body of the \<^verbatim>\<open>try\<close> block, from the parsed document on.\<close>

definition loadGamesData_try :: "json \<Rightarrow> error + table" where
  "loadGamesData_try jsonData =
     bind_err
       (if typeof_object jsonData \<and> \<not> isArray jsonData
        then bind_err (get_member jsonData ''nitromeGames'') (\<lambda>n.
               Inr (if \<not> truthy_val n
                    then direct_entries empty_table (own_entries jsonData)
                    else empty_table))
        else Inr empty_table)
       (\<lambda>t1.
     bind_err
       (bind_err (get_member jsonData ''nitromeGames'') (\<lambda>n.
          case n of
            Val (JArr games) \<Rightarrow> add_games t1 games
          | _ \<Rightarrow> Inr t1))
       (\<lambda>t2.
     bind_err (other_collections t2 (own_entries jsonData))
       (\<lambda>t3.
     case jsonData of
       JArr games \<Rightarrow> add_games t3 games
     | _ \<Rightarrow> Inr t3)))"

text \<open>\<^verbatim>\<open>loadGamesData\<close>: \<open>None\<close> is the \<^verbatim>\<open>null\<close> returned when an exception was caught or
  when the table has no key.\<close>

definition loadGamesData :: "json \<Rightarrow> table option" where
  "loadGamesData jsonData =
     (case loadGamesData_try jsonData of
        Inl e \<Rightarrow> None
      | Inr processedGames \<Rightarrow>
          if length (own processedGames) = 0 then None else Some processedGames)"

section \<open>Catalog resolver: \<^verbatim>\<open>findGameByUrlName\<close>\<close>

datatype resolution = NotFound | Found jsval

text \<open>\<^verbatim>\<open>makeUrlFriendly(game.name)\<close> for a truthy \<^verbatim>\<open>game.name\<close>.\<close>

fun call_makeUrlFriendly :: "jsval \<Rightarrow> error + string" where
  "call_makeUrlFriendly (Val (JStr s)) = Inr (makeUrlFriendly s)"
| "call_makeUrlFriendly v = Inl TypeError"

text \<open>The loop \<^verbatim>\<open>for (const [id, game] of Object.entries(gamesData))\<close>.\<close>

fun find_loop :: "(string \<times> json) list \<Rightarrow> string \<Rightarrow> error + resolution" where
  "find_loop [] searchName = Inr NotFound"
| "find_loop ((i, game) # rest) searchName =
     bind_err (get_member game ''id'') (\<lambda>gid.
     bind_err (if truthy_val gid
               then bind_err (call_toLowerCase gid) (\<lambda>l. Inr (l = searchName))
               else Inr False) (\<lambda>id_matches.
     if id_matches then Inr (Found (Val game))
     else
       bind_err (get_member game ''name'') (\<lambda>gname.
       bind_err (if truthy_val gname
                 then bind_err (call_makeUrlFriendly gname) (\<lambda>gameUrlName.
                        Inr (gameUrlName = searchName))
                 else Inr False) (\<lambda>name_matches.
       if name_matches then Inr (Found (Val game))
       else find_loop rest searchName))))"

definition findGameByUrlName :: "table option \<Rightarrow> string \<Rightarrow> error + resolution" where
  "findGameByUrlName gamesData urlName =
     (case gamesData of
        None \<Rightarrow> Inr NotFound
      | Some t \<Rightarrow>
          if urlName = [] then Inr NotFound
          else
            let searchName = toLowerCase urlName in
            if truthy_val (table_get t searchName) then Inr (Found (table_get t searchName))
            else find_loop (own t) searchName)"

section \<open>The catalog as the specification describes it\<close>

text \<open>The id under which an entry of an array is stored: the entry is an object whose
  \<^verbatim>\<open>id\<close> is a non-empty string. An entry without such an id is skipped.\<close>

fun entry_id :: "json \<Rightarrow> string option" where
  "entry_id (JObj ps) =
     (case map_of ps ''id'' of
        Some (JStr s) \<Rightarrow> if s = [] then None else Some s
      | _ \<Rightarrow> None)"
| "entry_id v = None"

text \<open>An array element on which the callback does not throw: not \<^verbatim>\<open>null\<close>, and an
  \<^verbatim>\<open>id\<close> that is a string or falsy.\<close>

fun well_formed_entry :: "json \<Rightarrow> bool" where
  "well_formed_entry JNull = False"
| "well_formed_entry (JObj ps) =
     (case map_of ps ''id'' of
        None \<Rightarrow> True
      | Some (JStr s) \<Rightarrow> True
      | Some i \<Rightarrow> \<not> truthy i)"
| "well_formed_entry v = True"

text \<open>The entries of all array keys of a document, in the order in which they are
  processed: \<^verbatim>\<open>nitromeGames\<close> first, then the other array keys in the document's order.\<close>

definition other_entries :: "(string \<times> json) list \<Rightarrow> json list" where
  "other_entries kvs =
     concat (map (\<lambda>(k, v). case v of
                                JArr gs \<Rightarrow> if k \<noteq> ''nitromeGames'' then gs else []
                              | _ \<Rightarrow> []) kvs)"

definition array_entries :: "(string \<times> json) list \<Rightarrow> json list" where
  "array_entries kvs =
     (case map_of kvs ''nitromeGames'' of Some (JArr gs) \<Rightarrow> gs | _ \<Rightarrow> [])
     @ other_entries kvs"

text \<open>Last write wins: the entry processed last among those whose lower-cased id is the
  key.\<close>

definition last_with_id :: "string \<Rightarrow> json list \<Rightarrow> json option" where
  "last_with_id key es = find (\<lambda>e. map_option toLowerCase (entry_id e) = Some key) (rev es)"

text \<open>A document all of whose arrays hold well-formed entries.\<close>

definition well_formed_arrays :: "(string \<times> json) list \<Rightarrow> bool" where
  "well_formed_arrays kvs =
     list_all (\<lambda>(k, v). case v of JArr gs \<Rightarrow> list_all well_formed_entry gs | _ \<Rightarrow> True) kvs"

text \<open>What case 1 leaves in the table before the arrays are processed: nothing when the
  document has a truthy \<^verbatim>\<open>nitromeGames\<close>.\<close>

definition direct_part :: "(string \<times> json) list \<Rightarrow> table" where
  "direct_part kvs =
     (case map_of kvs ''nitromeGames'' of
        None \<Rightarrow> direct_entries empty_table kvs
      | Some n \<Rightarrow> if truthy n then empty_table else direct_entries empty_table kvs)"

section \<open>The resolver as the specification describes it\<close>

text \<open>The normalized display name of an entry, when it has a non-empty string
  \<^verbatim>\<open>name\<close>.\<close>

fun name_slug :: "json \<Rightarrow> string option" where
  "name_slug (JObj ps) =
     (case map_of ps ''name'' of
        Some (JStr s) \<Rightarrow> if s = [] then None else Some (makeUrlFriendly s)
      | _ \<Rightarrow> None)"
| "name_slug v = None"

text \<open>
  The resolver in the specification's words, over the catalog in declaration order:
  first an exact case-insensitive match against every entry's id, then
  \<open>normalize(rawKey) = normalize(entry.displayName)\<close>, first hit wins.
\<close>

definition resolve_spec :: "string \<Rightarrow> json list \<Rightarrow> resolution" where
  "resolve_spec rawKey catalog =
     (case find (\<lambda>e. map_option toLowerCase (entry_id e) = Some (toLowerCase rawKey)) catalog of
        Some e \<Rightarrow> Found (Val e)
      | None \<Rightarrow>
          (case find (\<lambda>e. name_slug e = Some (makeUrlFriendly rawKey)) catalog of
             Some e \<Rightarrow> Found (Val e)
           | None \<Rightarrow> NotFound))"

text \<open>A table every entry of which is stored under its own lower-cased id, as the array
  cases of \<^verbatim>\<open>loadGamesData\<close> store entries.\<close>

definition keyed_by_id :: "table \<Rightarrow> bool" where
  "keyed_by_id t = list_all (\<lambda>(k, g). map_option toLowerCase (entry_id g) = Some k) (own t)"

text \<open>An entry whose \<^verbatim>\<open>name\<close> is a string or falsy, so that the resolver's loop does not
  throw on it.\<close>

fun name_ok :: "json \<Rightarrow> bool" where
  "name_ok (JObj ps) =
     (case map_of ps ''name'' of
        None \<Rightarrow> True
      | Some (JStr s) \<Rightarrow> True
      | Some v \<Rightarrow> \<not> truthy v)"
| "name_ok v = False"

definition names_ok :: "table \<Rightarrow> bool" where
  "names_ok t = list_all (\<lambda>(k, g). name_ok g) (own t)"

text \<open>An entry that, when it is stored, keeps the table a dictionary keyed by id on which
  the resolver's loop does not throw: its name is a string or falsy and its lower-cased
  id is not \<^verbatim>\<open>__proto__\<close>.\<close>

definition storable :: "json \<Rightarrow> bool" where
  "storable g =
     (case entry_id g of
        None \<Rightarrow> True
      | Some i \<Rightarrow> name_ok g \<and> toLowerCase i \<noteq> ''__proto__'')"

section \<open>Navigation: the asynchronous \<^verbatim>\<open>loadGame\<close> of script.js\<close>

text \<open>
  The page runs on one thread: an event handler or the continuation of an \<^verbatim>\<open>await\<close> runs
  to its end before the next one starts. \<^verbatim>\<open>loadGame\<close> has one \<^verbatim>\<open>await\<close>, on the
  \<^verbatim>\<open>HEAD\<close> request for the game file; it is modelled as two steps, the part before the
  \<^verbatim>\<open>await\<close> and the continuation, with the calls that wait for their response kept in
  the state. The state holds the globals \<^verbatim>\<open>currentGame\<close> and \<^verbatim>\<open>currentPlayer\<close>, the content
  of the player container and what \<^verbatim>\<open>updateInfoPanel\<close> was last called with.
\<close>

record game =
  game_id :: string
  game_name :: string
  game_path :: string

datatype container =
    DefaultContent
  | ErrorMessage string string
  | LoadingMessage string
  | PlayerElement string

record page =
  currentGame :: "string option"
  currentPlayer :: "string option"
  rufflePlayer :: container
  infoPanel :: "(string \<times> string \<times> string) option"
  in_flight :: "game list"

definition initial_page :: page where
  "initial_page =
     \<lparr>currentGame = None, currentPlayer = None, rufflePlayer = DefaultContent,
      infoPanel = None, in_flight = []\<rparr>"

datatype fetch_result = FetchOk | FetchNotOk | FetchThrows

text \<open>\<^verbatim>\<open>loadGame(gameId)\<close> up to the \<^verbatim>\<open>await\<close>.\<close>

definition loadGame :: "game list \<Rightarrow> string \<Rightarrow> page \<Rightarrow> page" where
  "loadGame nitromeGames gameId s =
     (case find (\<lambda>g. game_id g = gameId) nitromeGames of
        None \<Rightarrow> s\<lparr>rufflePlayer := ErrorMessage ''gameNotFound'' gameId\<rparr>
      | Some g \<Rightarrow> s\<lparr>currentGame := Some gameId, in_flight := in_flight s @ [g]\<rparr>)"

text \<open>How creating and loading the Ruffle player ends: it succeeds, or it throws an error
  with a message.\<close>

datatype init_result = InitOk | InitThrows string

text \<open>The continuation of one call: the response of its request has arrived; \<open>init\<close>
  says how creating and loading the Ruffle player ends.\<close>

definition loadGame_continue :: "game \<Rightarrow> fetch_result \<Rightarrow> init_result \<Rightarrow> page \<Rightarrow> page" where
  "loadGame_continue g response init s =
     (case response of
        FetchNotOk \<Rightarrow> s\<lparr>rufflePlayer := ErrorMessage ''fileNotFound'' (game_name g)\<rparr>
      | FetchThrows \<Rightarrow> s\<lparr>rufflePlayer := ErrorMessage ''errorAccessing'' (game_name g)\<rparr>
      | FetchOk \<Rightarrow>
          (case init of
             InitOk \<Rightarrow>
               s\<lparr>rufflePlayer := PlayerElement (game_path g),
                 infoPanel := Some (game_id g, game_path g, game_name g),
                 currentPlayer := Some (game_path g)\<rparr>
           | InitThrows message \<Rightarrow> s\<lparr>rufflePlayer := ErrorMessage ''failedInit'' message\<rparr>))"

text \<open>An event of the page: a navigation calls \<^verbatim>\<open>loadGame\<close>; the response of the
  \<open>k\<close>-th call in flight arrives.\<close>

datatype event = Navigate string | Response nat fetch_result init_result

definition step :: "game list \<Rightarrow> page \<Rightarrow> event \<Rightarrow> page" where
  "step nitromeGames s e =
     (case e of
        Navigate gameId \<Rightarrow> loadGame nitromeGames gameId s
      | Response k response init \<Rightarrow>
          if k < length (in_flight s)
          then loadGame_continue (in_flight s ! k) response init
                 (s\<lparr>in_flight := take k (in_flight s) @ drop (Suc k) (in_flight s)\<rparr>)
          else s)"

definition run :: "game list \<Rightarrow> page \<Rightarrow> event list \<Rightarrow> page" where
  "run nitromeGames s es = foldl (step nitromeGames) s es"

text \<open>Two entries, and the scenario of a navigation to the first followed at once by a
  navigation to the second, whose load completes first.\<close>

definition entry_A :: game where
  "entry_A = \<lparr>game_id = ''A'', game_name = ''Game A'', game_path = ''a.swf''\<rparr>"

definition entry_B :: game where
  "entry_B = \<lparr>game_id = ''B'', game_name = ''Game B'', game_path = ''b.swf''\<rparr>"

definition preempted :: "string \<Rightarrow> string \<Rightarrow> event list" where
  "preempted a b = [Navigate a, Navigate b, Response 1 FetchOk InitOk, Response 0 FetchOk InitOk]"

text \<open>The same two navigations with the loads completing in the order in which they were
  started: after the first response the second call is the only one in flight.\<close>

definition in_order :: "string \<Rightarrow> string \<Rightarrow> event list" where
  "in_order a b = [Navigate a, Navigate b, Response 0 FetchOk InitOk, Response 0 FetchOk InitOk]"

text \<open>Any sequence of responses: which call in flight is answered, how its request ends and
  how the player starts.\<close>

definition completions :: "(nat \<times> fetch_result \<times> init_result) list \<Rightarrow> event list" where
  "completions cs = map (\<lambda>(k, response, init). Response k response init) cs"

section \<open>\<^verbatim>\<open>getGames\<close>: copies of the lookup table in a store\<close>

text \<open>
  Whether a caller can change the catalog through what \<^verbatim>\<open>getGames\<close> returns depends on
  which objects are shared, so objects live in a store here: an address is an index into
  the list of allocated objects. The lookup table is an object whose properties refer to
  game objects; a game object holds parsed values. The spread \<^verbatim>\<open>{...gamesData}\<close>
  allocates a new object with the same properties, that is, with references to the same
  game objects.
\<close>

type_synonym addr = nat

datatype obj = TableObject "(string \<times> addr) list" | GameObject "(string \<times> json) list"

type_synonym store = "obj list"

datatype reference = Null | Ref addr

definition lookup :: "store \<Rightarrow> addr \<Rightarrow> obj option" where
  "lookup h a = (if a < length h then Some (h ! a) else None)"

definition alloc :: "store \<Rightarrow> obj \<Rightarrow> addr \<times> store" where
  "alloc h ob = (length h, h @ [ob])"

text \<open>The object spread \<^verbatim>\<open>{...x}\<close> of the object at an address.\<close>

definition spread :: "store \<Rightarrow> addr \<Rightarrow> reference \<times> store" where
  "spread h a =
     (case lookup h a of
        Some (TableObject ps) \<Rightarrow> (case alloc h (TableObject ps) of (n, h') \<Rightarrow> (Ref n, h'))
      | Some (GameObject ps) \<Rightarrow> (case alloc h (GameObject ps) of (n, h') \<Rightarrow> (Ref n, h'))
      | None \<Rightarrow> (case alloc h (TableObject []) of (n, h') \<Rightarrow> (Ref n, h')))"

text \<open>\<^verbatim>\<open>getGames: () => gamesData ? {...gamesData} : null\<close> of game-url-loader.js;
  \<open>gamesData\<close> is the module's variable, \<open>Null\<close> before the catalog is loaded.\<close>

definition getGames :: "reference \<Rightarrow> store \<Rightarrow> reference \<times> store" where
  "getGames gamesData h =
     (case gamesData of
        Null \<Rightarrow> (Null, h)
      | Ref a \<Rightarrow> spread h a)"

text \<open>
  \<^verbatim>\<open>JSON.parse\<close> of a cached catalog allocates a game object for every entry and then the
  table that refers to them.
\<close>

fun alloc_games :: "store \<Rightarrow> (string \<times> (string \<times> json) list) list \<Rightarrow> (string \<times> addr) list \<times> store" where
  "alloc_games h [] = ([], h)"
| "alloc_games h ((k, g) # rest) =
     (case alloc h (GameObject g) of
        (a, h1) \<Rightarrow> (case alloc_games h1 rest of (ps, h2) \<Rightarrow> ((k, a) # ps, h2)))"

definition parse_catalog :: "store \<Rightarrow> (string \<times> (string \<times> json) list) list \<Rightarrow> addr \<times> store" where
  "parse_catalog h c =
     (case alloc_games h c of (ps, h1) \<Rightarrow> alloc h1 (TableObject ps))"

text \<open>
  The \<^verbatim>\<open>getGames\<close> of the enhancer. \<open>cached\<close> is what \<^verbatim>\<open>getCachedGamesData()\<close> reads from
  local storage: nothing when the time stamp is missing or older than 24 hours, when the
  entry is missing or when it does not parse, and the stored catalog otherwise.
\<close>

definition getGames_enhanced ::
  "(string \<times> (string \<times> json) list) list option \<Rightarrow> reference \<Rightarrow> store \<Rightarrow> reference \<times> store" where
  "getGames_enhanced cached gamesData h =
     (case cached of
        Some c \<Rightarrow> (case parse_catalog h c of (cachedGames, h1) \<Rightarrow> spread h1 cachedGames)
      | None \<Rightarrow> getGames gamesData h)"

text \<open>The lookup table that the resolver sees at an address: every property with the
  game object it refers to.\<close>

definition read_game :: "store \<Rightarrow> addr \<Rightarrow> json" where
  "read_game h a = (case lookup h a of Some (GameObject ps) \<Rightarrow> JObj ps | _ \<Rightarrow> JNull)"

definition read_table :: "store \<Rightarrow> reference \<Rightarrow> table option" where
  "read_table h r =
     (case r of
        Null \<Rightarrow> None
      | Ref a \<Rightarrow>
          (case lookup h a of
             Some (TableObject ps) \<Rightarrow>
               Some \<lparr>own = map (\<lambda>(k, g). (k, read_game h g)) ps, proto = ObjectPrototype\<rparr>
           | _ \<Rightarrow> None))"

text \<open>A store in which the table at \<open>a\<close> and the games it refers to are allocated.\<close>

definition table_at :: "store \<Rightarrow> addr \<Rightarrow> (string \<times> addr) list \<Rightarrow> bool" where
  "table_at h a ps =
     (lookup h a = Some (TableObject ps) \<and> list_all (\<lambda>(k, g). g < length h) ps)"

section \<open>Example documents\<close>

definition aquanaut :: json where
  "aquanaut = JObj [(''id'', JStr ''Aquanaut''), (''name'', JStr ''Aquanaut''), (''path'', JStr ''a.swf'')]"

definition aquanaut_again :: json where
  "aquanaut_again = JObj [(''id'', JStr ''AQUANAUT''), (''name'', JStr ''Aquanaut 2''), (''path'', JStr ''a2.swf'')]"

definition bad_ice_cream :: json where
  "bad_ice_cream =
     JObj [(''id'', JStr ''Bad_Ice_Cream''), (''name'', JStr ''Bad Ice Cream''), (''path'', JStr ''b.swf'')]"

definition nameless :: json where
  "nameless = JObj [(''name'', JStr ''No Id''), (''path'', JStr ''n.swf'')]"

definition two_collections :: "(string \<times> json) list" where
  "two_collections =
     [(''nitromeGames'', JArr [aquanaut, nameless, bad_ice_cream]),
      (''extra'', JArr [aquanaut_again])]"

definition small_catalog :: json where
  "small_catalog = JObj [(''nitromeGames'', JArr [aquanaut, bad_ice_cream])]"

definition small_table :: table where
  "small_table =
     \<lparr>own = [(''aquanaut'', aquanaut), (''bad_ice_cream'', bad_ice_cream)],
      proto = ObjectPrototype\<rparr>"

definition example_store :: store where
  "example_store =
     [GameObject [(''id'', JStr ''Aquanaut''), (''name'', JStr ''Aquanaut''), (''path'', JStr ''a.swf'')],
      TableObject [(''aquanaut'', 0)]]"

definition example_cache :: "(string \<times> (string \<times> json) list) list" where
  "example_cache = [(''old_game'', [(''id'', JStr ''Old_Game''), (''name'', JStr ''Old Game'')])]"

text \<open>A catalog with an entry whose id is \<^verbatim>\<open>__proto__\<close>, alone and after another entry.\<close>

definition proto_entry :: json where
  "proto_entry = JObj [(''id'', JStr ''__proto__''), (''name'', JStr ''Proto''), (''path'', JStr ''p.swf'')]"

definition proto_only :: "(string \<times> json) list" where
  "proto_only = [(''nitromeGames'', JArr [proto_entry])]"

definition proto_and_aquanaut :: "(string \<times> json) list" where
  "proto_and_aquanaut = [(''nitromeGames'', JArr [aquanaut, proto_entry])]"

text \<open>Two entries with the same display name; the id of the second is an integer index.\<close>

definition twin_shot :: json where
  "twin_shot = JObj [(''id'', JStr ''Twin''), (''name'', JStr ''Twin Shot''), (''path'', JStr ''t.swf'')]"

definition twin_shot_2 :: json where
  "twin_shot_2 = JObj [(''id'', JStr ''2''), (''name'', JStr ''Twin Shot''), (''path'', JStr ''t2.swf'')]"

definition twin_catalog :: json where
  "twin_catalog = JObj [(''nitromeGames'', JArr [twin_shot, twin_shot_2])]"

section \<open>Properties of the string operations\<close>

lemma indexOf_None: "indexOf s pat = None \<longleftrightarrow> \<not> sublist pat s"
proof (induction s)
  case Nil
  then show ?case by auto
next
  case (Cons c s)
  then show ?case by (auto simp: sublist_Cons_right)
qed

lemma includes_str_iff: "includes_str s pat \<longleftrightarrow> sublist pat s"
  by (simp add: includes_str_def indexOf_None)

lemma indexOf_Some:
  "indexOf s pat = Some i \<Longrightarrow>
     i \<le> length s \<and> prefix pat (drop i s) \<and> (\<forall>j<i. \<not> prefix pat (drop j s))"
proof (induction s arbitrary: i)
  case Nil
  then show ?case by (simp split: if_splits)
next
  case (Cons c s)
  show ?case
  proof (cases "prefix pat (c # s)")
    case True
    then have "i = 0" using Cons.prems by simp
    then show ?thesis using True by simp
  next
    case False
    then obtain k where k: "indexOf s pat = Some k" "i = Suc k"
      using Cons.prems by auto
    from Cons.IH[OF k(1)] have IH: "k \<le> length s" "prefix pat (drop k s)"
      "\<And>j. j < k \<Longrightarrow> \<not> prefix pat (drop j s)" by auto
    have "\<not> prefix pat (drop j (c # s))" if "j < i" for j
    proof (cases j)
      case 0
      then show ?thesis using False by simp
    next
      case (Suc j')
      then have "j' < k" using that k(2) by simp
      from IH(3)[OF this] show ?thesis using Suc by simp
    qed
    then show ?thesis using IH(1,2) k(2) by simp
  qed
qed

lemma getSubstitution_plain:
  "CHR ''$'' \<notin> set rep \<Longrightarrow> getSubstitution m s p rep = rep"
  by (induction m s p rep rule: getSubstitution.induct) auto

lemma replace_first_occurrence:
  assumes "sublist pat s" "CHR ''$'' \<notin> set rep"
  shows "\<exists>pre post. s = pre @ pat @ post \<and>
           (\<forall>pre' post'. s = pre' @ pat @ post' \<longrightarrow> length pre \<le> length pre') \<and>
           replace s pat rep = pre @ rep @ post"
proof -
  from assms(1) obtain i where i: "indexOf s pat = Some i"
    using indexOf_None[of s pat] by auto
  from indexOf_Some[OF i] have
    len: "i \<le> length s" and pre: "prefix pat (drop i s)" and
    least: "\<And>j. j < i \<Longrightarrow> \<not> prefix pat (drop j s)" by auto
  from pre obtain post where post: "drop i s = pat @ post"
    by (auto simp: prefix_def)
  have dr: "drop (i + length pat) s = post"
    using post by (metis add.commute append_eq_conv_conj drop_drop)
  have split: "take i s @ pat @ post = s"
    using post by (metis append_take_drop_id)
  have r: "replace s pat rep = take i s @ rep @ post"
    using i assms(2) dr by (simp add: replace_def getSubstitution_plain)
  have l: "length (take i s) \<le> length pre'" if "s = pre' @ pat @ post'" for pre' post'
  proof (rule ccontr)
    assume "\<not> length (take i s) \<le> length pre'"
    then have "length pre' < i" using len by simp
    from least[OF this] show False using that by simp
  qed
  show ?thesis
    apply (rule exI[of _ "take i s"])
    apply (rule exI[of _ post])
    using split[symmetric] l r by blast
qed

section \<open>The redirector applies the first matching rule\<close>

lemma redirectUrl_loop_None:
  "find (\<lambda>r. sublist (rule_from r) url) rules = None \<Longrightarrow> redirectUrl_loop rules url = url"
  by (induction rules) (auto simp: includes_str_iff split: if_splits)

lemma redirectUrl_loop_Some:
  "find (\<lambda>r. sublist (rule_from r) url) rules = Some r \<Longrightarrow>
     redirectUrl_loop rules url = replace url (rule_from r) (rule_to r)"
  by (induction rules) (auto simp: includes_str_iff split: if_splits)

lemma urlMappings_plain: "r \<in> set urlMappings \<Longrightarrow> CHR ''$'' \<notin> set (rule_to r)"
  by (auto simp: urlMappings_def)

text \<open>
  Claim C1. For every address, \<^verbatim>\<open>redirectUrl\<close> scans the redirect rules in their declared
  order. When no rule's \<open>from\<close> occurs in the address, the address is returned unchanged.
  Otherwise the first rule (in declared order) whose \<open>from\<close> is a substring of the address
  is applied: the leftmost occurrence of its \<open>from\<close> is replaced by its \<open>to\<close>, and no
  further rule is tried. With the default table,
  \<^verbatim>\<open>https://jogos.ipv7.pt/faq.swf\<close> becomes \<^verbatim>\<open>https://cdn.xperia.pt/laserquest/faq.swf\<close>.
\<close>

theorem redirectUrl_first_matching_rule:
  "(find (\<lambda>r. sublist (rule_from r) url) urlMappings = None \<longrightarrow> redirectUrl url = url) \<and>
   (\<forall>r. find (\<lambda>r. sublist (rule_from r) url) urlMappings = Some r \<longrightarrow>
      (\<exists>pre post. url = pre @ rule_from r @ post \<and>
         (\<forall>pre' post'. url = pre' @ rule_from r @ post' \<longrightarrow> length pre \<le> length pre') \<and>
         redirectUrl url = pre @ rule_to r @ post)) \<and>
   redirectUrl ''https://jogos.ipv7.pt/faq.swf'' = ''https://cdn.xperia.pt/laserquest/faq.swf''"
proof (intro conjI allI impI)
  assume "find (\<lambda>r. sublist (rule_from r) url) urlMappings = None"
  then show "redirectUrl url = url"
    by (simp add: redirectUrl_def redirectUrl_loop_None)
next
  fix r assume f: "find (\<lambda>r. sublist (rule_from r) url) urlMappings = Some r"
  then have "r \<in> set urlMappings" and s: "sublist (rule_from r) url"
    by (auto simp: find_Some_iff)
  then have p: "CHR ''$'' \<notin> set (rule_to r)" using urlMappings_plain by blast
  have "redirectUrl url = replace url (rule_from r) (rule_to r)"
    using f by (simp add: redirectUrl_def redirectUrl_loop_Some)
  then show "\<exists>pre post. url = pre @ rule_from r @ post \<and>
         (\<forall>pre' post'. url = pre' @ rule_from r @ post' \<longrightarrow> length pre \<le> length pre') \<and>
         redirectUrl url = pre @ rule_to r @ post"
    using replace_first_occurrence[OF s p] by simp
next
  show "redirectUrl ''https://jogos.ipv7.pt/faq.swf'' = ''https://cdn.xperia.pt/laserquest/faq.swf''"
    by code_simp
qed


theorem redirectUrl_first_matching_rule_witness:
  "find (\<lambda>r. sublist (rule_from r) ''https://example.org/game.swf'') urlMappings = None \<and>
   redirectUrl ''https://example.org/game.swf'' = ''https://example.org/game.swf'' \<and>
   find (\<lambda>r. sublist (rule_from r) ''https://jogos.ipv7.pt/hora.swf?v=2'') urlMappings
     = Some (urlMappings ! 3) \<and>
   (\<exists>pre post. ''https://jogos.ipv7.pt/hora.swf?v=2'' = pre @ rule_from (urlMappings ! 3) @ post \<and>
      redirectUrl ''https://jogos.ipv7.pt/hora.swf?v=2'' = pre @ rule_to (urlMappings ! 3) @ post)"
proof -
  have n: "find (\<lambda>r. sublist (rule_from r) ''https://example.org/game.swf'') urlMappings = None"
    by code_simp
  have f: "find (\<lambda>r. sublist (rule_from r) ''https://jogos.ipv7.pt/hora.swf?v=2'') urlMappings
     = Some (urlMappings ! 3)"
    by code_simp
  from n redirectUrl_first_matching_rule[of "''https://example.org/game.swf''"]
  have a: "redirectUrl ''https://example.org/game.swf'' = ''https://example.org/game.swf''"
    by blast
  from f redirectUrl_first_matching_rule[of "''https://jogos.ipv7.pt/hora.swf?v=2''"]
  have b: "\<exists>pre post. ''https://jogos.ipv7.pt/hora.swf?v=2'' = pre @ rule_from (urlMappings ! 3) @ post \<and>
      redirectUrl ''https://jogos.ipv7.pt/hora.swf?v=2'' = pre @ rule_to (urlMappings ! 3) @ post"
    by blast
  from n a f b show ?thesis by blast
qed

section \<open>Only the first occurrence is rewritten\<close>

lemma indexOf_first:
  assumes "prefix pat (drop p s)" "p \<le> length s" "\<forall>j<p. \<not> prefix pat (drop j s)"
  shows "indexOf s pat = Some p"
proof -
  have "sublist pat s" using assms(1)
    by (metis append_take_drop_id prefix_def sublist_appendI)
  then obtain i where i: "indexOf s pat = Some i" using indexOf_None[of s pat] by auto
  from indexOf_Some[OF i] have "prefix pat (drop i s)" "\<forall>j<i. \<not> prefix pat (drop j s)" by auto
  then have "i = p" using assms(1,3) by (meson linorder_neqE_nat)
  then show ?thesis using i by simp
qed

lemma urlMappings_from_nonempty: "r \<in> set urlMappings \<Longrightarrow> rule_from r \<noteq> []"
  by (auto simp: urlMappings_def)

lemma urlMappings_apart_exec:
  "list_all (\<lambda>a. list_all (\<lambda>b. list_all (\<lambda>d.
       (a = b \<and> d = 0) \<or>
       \<not> (prefix (rule_from b) (drop d (rule_from a)) \<or> prefix (drop d (rule_from a)) (rule_from b)))
     [0..<length (rule_from a)]) urlMappings) urlMappings"
  by code_simp

lemma urlMappings_apart:
  assumes "a \<in> set urlMappings" "b \<in> set urlMappings" "d < length (rule_from a)"
    and "prefix (rule_from b) (drop d (rule_from a)) \<or> prefix (drop d (rule_from a)) (rule_from b)"
  shows "a = b \<and> d = 0"
proof -
  have "d \<in> set [0..<length (rule_from a)]" using assms(3) by simp
  then show ?thesis
    using urlMappings_apart_exec assms(1,2,4) unfolding list_all_iff by blast
qed

lemma overlap_comparable:
  assumes "prefix f (drop i s)" "prefix g (drop j s)" "i \<le> j" "j < i + length f"
  shows "prefix g (drop (j - i) f) \<or> prefix (drop (j - i) f) g"
proof -
  from assms(1) obtain x where x: "drop i s = f @ x" by (auto simp: prefix_def)
  have "drop j s = drop (j - i) (drop i s)" using assms(3) by simp
  also have "\<dots> = drop (j - i) f @ x" using x assms(4) by simp
  finally have "prefix g (drop (j - i) f @ x)" using assms(2) by simp
  then have "prefix g (drop (j - i) f) \<or> (\<exists>us. g = drop (j - i) f @ us \<and> prefix us x)"
    by (simp only: prefix_append)
  then show ?thesis by auto
qed

lemma occurrences_apart:
  assumes k: "k \<in> set urlMappings" and r: "r \<in> set urlMappings"
    and ok: "prefix (rule_from k) (drop pk url)" and oq: "prefix (rule_from r) (drop q url)"
    and other: "r \<noteq> k \<or> q \<noteq> pk"
  shows "q + length (rule_from r) \<le> pk \<or> pk + length (rule_from k) \<le> q"
proof (rule ccontr)
  assume n: "\<not> (q + length (rule_from r) \<le> pk \<or> pk + length (rule_from k) \<le> q)"
  show False
  proof (cases "pk \<le> q")
    case True
    have lt: "q < pk + length (rule_from k)" using n by simp
    from overlap_comparable[OF ok oq True lt]
    have "prefix (rule_from r) (drop (q - pk) (rule_from k)) \<or>
          prefix (drop (q - pk) (rule_from k)) (rule_from r)" .
    moreover have "q - pk < length (rule_from k)" using lt True by simp
    ultimately have "k = r \<and> q - pk = 0" using urlMappings_apart[OF k r] by blast
    then show False using other True by simp
  next
    case False
    then have le: "q \<le> pk" by simp
    have lt: "pk < q + length (rule_from r)" using n by simp
    from overlap_comparable[OF oq ok le lt]
    have "prefix (rule_from k) (drop (pk - q) (rule_from r)) \<or>
          prefix (drop (pk - q) (rule_from r)) (rule_from k)" .
    moreover have "pk - q < length (rule_from r)" using lt le by simp
    ultimately have "r = k \<and> pk - q = 0" using urlMappings_apart[OF r k] by blast
    then show False using False by simp
  qed
qed

text \<open>
  Claim C9. Let \<open>k\<close> be the rule that the redirector applies to an address (the first rule
  in declared order whose \<open>from\<close> occurs in it) and \<open>pk\<close> the first occurrence of its
  \<open>from\<close>. The output is the address with that one occurrence replaced by \<open>to\<close>. Every
  other occurrence of the \<open>from\<close> of any rule of the table, in particular every later
  occurrence of the \<open>from\<close> of \<open>k\<close> itself, lies apart from the replaced one and is found
  unchanged in the output: at the same position when it lies before the replaced
  occurrence, moved by the difference of the lengths of \<open>to\<close> and \<open>from\<close> when it lies
  after it.
\<close>

theorem redirectUrl_only_first_occurrence:
  assumes applied: "find (\<lambda>r. sublist (rule_from r) url) urlMappings = Some k"
    and first: "prefix (rule_from k) (drop pk url)" "\<forall>j<pk. \<not> prefix (rule_from k) (drop j url)"
    and rule: "r \<in> set urlMappings"
    and occurrence: "prefix (rule_from r) (drop q url)"
    and other: "r \<noteq> k \<or> q \<noteq> pk"
  shows "redirectUrl url = take pk url @ rule_to k @ drop (pk + length (rule_from k)) url \<and>
         (q + length (rule_from r) \<le> pk \<or> pk + length (rule_from k) \<le> q) \<and>
         (r = k \<longrightarrow> pk + length (rule_from k) \<le> q) \<and>
         prefix (rule_from r)
           (drop (if q < pk then q else q + length (rule_to k) - length (rule_from k))
              (redirectUrl url))"
proof -
  let ?f = "rule_from k" and ?t = "rule_to k"
  from applied have k: "k \<in> set urlMappings" by (auto simp: find_Some_iff)
  then have ne: "?f \<noteq> []" by (rule urlMappings_from_nonempty)
  have plain: "CHR ''$'' \<notin> set ?t" using k by (rule urlMappings_plain)
  have p: "pk \<le> length url"
  proof (rule ccontr)
    assume "\<not> pk \<le> length url"
    then have "drop pk url = []" by simp
    then show False using first(1) ne by simp
  qed
  have idx: "indexOf url ?f = Some pk" using first(1) p first(2) by (rule indexOf_first)
  have "redirectUrl url = replace url ?f ?t"
    using applied by (simp add: redirectUrl_def redirectUrl_loop_Some)
  then have out: "redirectUrl url = take pk url @ ?t @ drop (pk + length ?f) url"
    using idx plain by (simp add: replace_def getSubstitution_plain)
  have apart: "q + length (rule_from r) \<le> pk \<or> pk + length ?f \<le> q"
    using k rule first(1) occurrence other by (rule occurrences_apart)
  have same: "pk + length ?f \<le> q" if "r = k"
  proof -
    have "q \<noteq> pk" using other that by simp
    moreover have "\<not> q < pk" using first(2) occurrence that by blast
    ultimately show ?thesis using apart that ne by auto
  qed
  have lt: "length (take pk url) = pk" using p by simp
  have kept: "prefix (rule_from r)
           (drop (if q < pk then q else q + length ?t - length ?f) (redirectUrl url))"
  proof (cases "q + length (rule_from r) \<le> pk")
    case True
    have rne: "rule_from r \<noteq> []" using rule by (rule urlMappings_from_nonempty)
    then have qlt: "q < pk" using True by (cases "rule_from r") auto
    from occurrence obtain x where x: "drop q url = rule_from r @ x" by (auto simp: prefix_def)
    have "take (pk - q) (drop q url) = rule_from r @ take (pk - q - length (rule_from r)) x"
      using x True by simp
    then have "drop q (take pk url) = rule_from r @ take (pk - q - length (rule_from r)) x"
      by (simp add: drop_take)
    then have "prefix (rule_from r) (drop q (take pk url))" by simp
    moreover have "drop q (redirectUrl url) = drop q (take pk url) @ ?t @ drop (pk + length ?f) url"
      unfolding out using qlt lt by simp
    ultimately show ?thesis using qlt by simp
  next
    case False
    then have ge: "pk + length ?f \<le> q" using apart by simp
    then have nlt: "\<not> q < pk" by simp
    have "drop (q + length ?t - length ?f) (redirectUrl url)
            = drop (q + length ?t - length ?f - pk - length ?t) (drop (pk + length ?f) url)"
      unfolding out using ge lt by (simp add: drop_append)
    also have "\<dots> = drop q url" using ge by simp
    finally show ?thesis using occurrence nlt by simp
  qed
  show ?thesis using out apart same kept by blast
qed

theorem redirectUrl_only_first_occurrence_witness:
  "redirectUrl ''https://jogos.ipv7.pt/nov.swf?next=https://jogos.ipv7.pt/nov.swf''
     = ''https://cdn.xperia.pt/laserquest/nov.swf?next=https://jogos.ipv7.pt/nov.swf'' \<and>
   prefix ''https://jogos.ipv7.pt/nov.swf''
     (drop 46 (redirectUrl ''https://jogos.ipv7.pt/nov.swf?next=https://jogos.ipv7.pt/nov.swf''))"
proof -
  let ?url = "''https://jogos.ipv7.pt/nov.swf?next=https://jogos.ipv7.pt/nov.swf''"
  let ?r = "\<lparr>rule_from = ''https://jogos.ipv7.pt/nov.swf'',
              rule_to = ''https://cdn.xperia.pt/laserquest/nov.swf''\<rparr>"
  have a: "find (\<lambda>r. sublist (rule_from r) ?url) urlMappings = Some ?r" by code_simp
  have f1: "prefix (rule_from ?r) (drop 0 ?url)" by simp
  have f2: "\<forall>j<(0::nat). \<not> prefix (rule_from ?r) (drop j ?url)" by simp
  have m: "?r \<in> set urlMappings" by (simp add: urlMappings_def)
  have l2: "prefix (rule_from ?r) (drop 35 ?url)" by simp
  have o: "?r \<noteq> ?r \<or> (35::nat) \<noteq> 0" by simp
  from redirectUrl_only_first_occurrence[OF a f1 f2 m l2 o] show ?thesis by simp
qed

theorem later_rule_is_not_applied:
  "prefix (rule_from (urlMappings ! 2))
     (drop 52 ''https://cdn.nitrome.com/components/NitromeAPI.pkg?a=https://jogos.ipv7.pt/faq.swf&b=https://jogos.ipv7.pt/faq.swf'') \<and>
   prefix (rule_from (urlMappings ! 2))
     (drop 84 ''https://cdn.nitrome.com/components/NitromeAPI.pkg?a=https://jogos.ipv7.pt/faq.swf&b=https://jogos.ipv7.pt/faq.swf'') \<and>
   redirectUrl ''https://cdn.nitrome.com/components/NitromeAPI.pkg?a=https://jogos.ipv7.pt/faq.swf&b=https://jogos.ipv7.pt/faq.swf''
     = ''https://cdn.xperia.pt/NitromeAPI.pkg?a=https://jogos.ipv7.pt/faq.swf&b=https://jogos.ipv7.pt/faq.swf''"
proof -
  let ?url = "''https://cdn.nitrome.com/components/NitromeAPI.pkg?a=https://jogos.ipv7.pt/faq.swf&b=https://jogos.ipv7.pt/faq.swf''"
  have a: "prefix (rule_from (urlMappings ! 2)) (drop 52 ?url)" by code_simp
  have b: "prefix (rule_from (urlMappings ! 2)) (drop 84 ?url)" by code_simp
  have c: "redirectUrl ?url
     = ''https://cdn.xperia.pt/NitromeAPI.pkg?a=https://jogos.ipv7.pt/faq.swf&b=https://jogos.ipv7.pt/faq.swf''"
    by code_simp
  from a b c show ?thesis by blast
qed

section \<open>The recently played list is bounded and free of duplicates\<close>

text \<open>
  Claim C7. For every stored list of at most 10 ids and every inserted id, the list after
  \<^verbatim>\<open>addToRecentlyPlayed\<close> starts with the inserted id and holds it exactly once, has at
  most 10 entries, is the old list with the id moved to the front when the id was already
  present, and, when the id is new and the list is full, is the id followed by the old list
  without its last (oldest) entry.
\<close>

theorem addToRecentlyPlayed_invariants:
  assumes "length l \<le> 10"
  shows "hd (addToRecentlyPlayed g (Some l)) = g \<and>
         count_list (addToRecentlyPlayed g (Some l)) g = 1 \<and>
         length (addToRecentlyPlayed g (Some l)) \<le> 10 \<and>
         (g \<in> set l \<longrightarrow> addToRecentlyPlayed g (Some l) = g # filter (\<lambda>i. i \<noteq> g) l) \<and>
         (g \<notin> set l \<and> length l < 10 \<longrightarrow> addToRecentlyPlayed g (Some l) = g # l) \<and>
         (g \<notin> set l \<and> length l = 10 \<longrightarrow> addToRecentlyPlayed g (Some l) = g # butlast l)"
proof -
  let ?f = "filter (\<lambda>i. i \<noteq> g) l"
  have c0: "count_list ?f g = 0" by (induction l) auto
  have fl: "length ?f \<le> 10"
    using assms length_filter_le[of "\<lambda>i. i \<noteq> g" l] by linarith
  have mem: "g \<in> set l \<Longrightarrow> length ?f < length l"
    by (induction l) (auto simp: less_Suc_eq_le)
  have nomem: "g \<notin> set l \<Longrightarrow> ?f = l" by (induction l) auto
  have cb: "count_list (butlast ?f) g = 0"
    using c0 by (metis count_list_0_iff in_set_butlastD)
  have 1: "hd (addToRecentlyPlayed g (Some l)) = g"
    by (simp add: addToRecentlyPlayed_def Let_def)
  have 2: "count_list (addToRecentlyPlayed g (Some l)) g = 1"
    using c0 cb by (simp add: addToRecentlyPlayed_def Let_def)
  have 3: "length (addToRecentlyPlayed g (Some l)) \<le> 10"
    using assms fl by (simp add: addToRecentlyPlayed_def Let_def)
  have 4: "g \<in> set l \<longrightarrow> addToRecentlyPlayed g (Some l) = g # ?f"
    using assms mem by (auto simp: addToRecentlyPlayed_def Let_def)
  have 5: "g \<notin> set l \<and> length l < 10 \<longrightarrow> addToRecentlyPlayed g (Some l) = g # l"
    using nomem by (auto simp: addToRecentlyPlayed_def Let_def)
  have 6: "g \<notin> set l \<and> length l = 10 \<longrightarrow> addToRecentlyPlayed g (Some l) = g # butlast l"
    using nomem by (auto simp: addToRecentlyPlayed_def Let_def)
  from 1 2 3 4 5 6 show ?thesis by blast
qed

theorem addToRecentlyPlayed_invariants_witness:
  "length [''j'', ''i'', ''h'', ''g'', ''f'', ''e'', ''d'', ''c'', ''b'', ''a''] \<le> 10 \<and>
   addToRecentlyPlayed ''k'' (Some [''j'', ''i'', ''h'', ''g'', ''f'', ''e'', ''d'', ''c'', ''b'', ''a''])
     = [''k'', ''j'', ''i'', ''h'', ''g'', ''f'', ''e'', ''d'', ''c'', ''b''] \<and>
   addToRecentlyPlayed ''c'' (Some [''j'', ''i'', ''h'', ''g'', ''f'', ''e'', ''d'', ''c'', ''b'', ''a''])
     = [''c'', ''j'', ''i'', ''h'', ''g'', ''f'', ''e'', ''d'', ''b'', ''a'']"
proof -
  let ?l = "[''j'', ''i'', ''h'', ''g'', ''f'', ''e'', ''d'', ''c'', ''b'', ''a'']"
  have h: "length ?l \<le> 10" by simp
  have a: "''k'' \<notin> set ?l \<and> length ?l = 10" by simp
  have b: "''c'' \<in> set ?l" by simp
  from addToRecentlyPlayed_invariants[OF h, of "''k''"] a
  have 1: "addToRecentlyPlayed ''k'' (Some ?l) = ''k'' # butlast ?l" by blast
  from addToRecentlyPlayed_invariants[OF h, of "''c''"] b
  have 2: "addToRecentlyPlayed ''c'' (Some ?l) = ''c'' # filter (\<lambda>i. i \<noteq> ''c'') ?l" by blast
  from h 1 2 show ?thesis by simp
qed

section \<open>Regular-expression replacement as list functions\<close>

lemma drop_takeWhile_length: "drop (length (takeWhile P xs)) xs = dropWhile P xs"
  by (induction xs) auto

lemma replace_g_match_plus:
  "replace_g (match_plus cls) ''-'' b s = collapse_runs cls s"
proof (induction s arbitrary: b rule: length_induct)
  case (1 s)
  show ?case
  proof (cases s)
    case Nil
    then show ?thesis by simp
  next
    case (Cons c t)
    show ?thesis
    proof (cases "cls c")
      case True
      have len: "length (dropWhile cls t) < length s"
        using Cons length_dropWhile_le[of cls t] by simp
      have "replace_g (match_plus cls) ''-'' b s =
              ''-'' @ replace_g (match_plus cls) ''-'' False (dropWhile cls t)"
        using True Cons drop_takeWhile_length[of cls t] by (simp add: match_plus_def)
      also have "\<dots> = ''-'' @ collapse_runs cls (dropWhile cls t)"
        using 1 len by simp
      finally show ?thesis using True Cons by simp
    next
      case False
      have "replace_g (match_plus cls) ''-'' b s = c # replace_g (match_plus cls) ''-'' False t"
        using False Cons by (simp add: match_plus_def)
      then show ?thesis using 1 False Cons by simp
    qed
  qed
qed

lemma replace_g_match_one:
  "replace_g (match_one cls) [] b s = filter (\<lambda>c. \<not> cls c) s"
  by (induction s arbitrary: b) (auto simp: match_one_def)

lemma rev_dropWhile_rev_Cons:
  "rev (dropWhile P (rev (c # s))) =
     (if \<forall>x \<in> set (c # s). P x then [] else c # rev (dropWhile P (rev s)))"
  by (auto simp: dropWhile_append split: if_splits)

lemma takeWhile_all_iff: "length (takeWhile P xs) = length xs \<longleftrightarrow> (\<forall>x \<in> set xs. P x)"
  by (induction xs) auto

lemma replace_g_edge_False:
  "replace_g match_edge_hyphens [] False s = rev (dropWhile is_hyphen (rev s))"
proof (induction s)
  case Nil
  then show ?case by simp
next
  case (Cons c s)
  show ?case
  proof (cases "\<forall>x \<in> set (c # s). is_hyphen x")
    case True
    then have "length (takeWhile is_hyphen (c # s)) = length (c # s)"
      using takeWhile_all_iff[of is_hyphen "c # s"] by blast
    then have "match_edge_hyphens False (c # s) = Some (length (c # s))"
      by (simp add: match_edge_hyphens_def)
    then have "replace_g match_edge_hyphens [] False (c # s) = []" by simp
    then show ?thesis using True rev_dropWhile_rev_Cons[of is_hyphen c s] by simp
  next
    case False
    then have "length (takeWhile is_hyphen (c # s)) \<noteq> length (c # s)"
      using takeWhile_all_iff[of is_hyphen "c # s"] by blast
    then have "match_edge_hyphens False (c # s) = None"
      by (simp add: match_edge_hyphens_def Let_def)
    then have "replace_g match_edge_hyphens [] False (c # s)
                 = c # replace_g match_edge_hyphens [] False s" by simp
    then show ?thesis using False Cons rev_dropWhile_rev_Cons[of is_hyphen c s] by simp
  qed
qed

lemma replace_g_edge_True:
  "replace_g match_edge_hyphens [] True s = strip_separators s"
proof (cases s)
  case Nil
  then show ?thesis by (simp add: strip_separators_def)
next
  case (Cons c t)
  show ?thesis
  proof (cases "is_hyphen c")
    case True
    then have "match_edge_hyphens True (c # t) = Some (Suc (length (takeWhile is_hyphen t)))"
      by (simp add: match_edge_hyphens_def)
    then have "replace_g match_edge_hyphens [] True s
                 = replace_g match_edge_hyphens [] False (dropWhile is_hyphen t)"
      using Cons drop_takeWhile_length[of is_hyphen t] by simp
    then show ?thesis using True Cons
      by (simp add: replace_g_edge_False strip_separators_def)
  next
    case False
    then have "match_edge_hyphens True (c # t) = None"
      by (simp add: match_edge_hyphens_def)
    then have "replace_g match_edge_hyphens [] True s
                 = c # replace_g match_edge_hyphens [] False t"
      using Cons by simp
    moreover have "\<not> (\<forall>x \<in> set (c # t). is_hyphen x)" using False by simp
    ultimately show ?thesis using False Cons rev_dropWhile_rev_Cons[of is_hyphen c t]
      by (simp add: replace_g_edge_False strip_separators_def)
  qed
qed

section \<open>Shape of collapsed and stripped strings\<close>

lemma collapse_runs_set:
  "c \<in> set (collapse_runs cls s) \<Longrightarrow> (c \<in> set s \<and> \<not> cls c) \<or> c = CHR ''-''"
proof (induction cls s rule: collapse_runs.induct)
  case (1 cls)
  then show ?case by simp
next
  case (2 cls d s)
  show ?case
  proof (cases "cls d")
    case True
    then have "c = CHR ''-'' \<or> c \<in> set (collapse_runs cls (dropWhile cls s))"
      using 2(3) by simp
    then show ?thesis
    proof
      assume "c = CHR ''-''"
      then show ?thesis by simp
    next
      assume "c \<in> set (collapse_runs cls (dropWhile cls s))"
      from 2(1)[OF True this] have "(c \<in> set (dropWhile cls s) \<and> \<not> cls c) \<or> c = CHR ''-''" .
      then show ?thesis using set_dropWhileD[of c cls s] by auto
    qed
  next
    case False
    then have "c = d \<or> c \<in> set (collapse_runs cls s)" using 2(3) by simp
    then show ?thesis using 2(2)[OF False] False by auto
  qed
qed

lemma collapse_runs_hd:
  "s = [] \<or> \<not> cls (hd s) \<Longrightarrow> cls CHR ''-'' \<Longrightarrow> \<not> prefix ''-'' (collapse_runs cls s)"
  by (cases s) auto

lemma dropWhile_hd: "dropWhile P s = [] \<or> \<not> P (hd (dropWhile P s))"
  using hd_dropWhile[of P s] by blast

lemma collapse_runs_single:
  "cls CHR ''-'' \<Longrightarrow> \<not> sublist ''--'' (collapse_runs cls s)"
proof (induction cls s rule: collapse_runs.induct)
  case (1 cls)
  then show ?case by simp
next
  case (2 cls c s)
  show ?case
  proof (cases "cls c")
    case True
    have "\<not> prefix ''-'' (collapse_runs cls (dropWhile cls s))"
      using collapse_runs_hd[OF dropWhile_hd[of cls s] 2(3)] .
    then have "\<not> prefix ''--'' (CHR ''-'' # collapse_runs cls (dropWhile cls s))"
      by simp
    then show ?thesis using True 2 by (simp add: sublist_Cons_right)
  next
    case False
    then have "c \<noteq> CHR ''-''" using 2(3) by auto
    then show ?thesis using False 2 by (simp add: sublist_Cons_right)
  qed
qed

lemma no_double_Cons:
  "\<not> sublist ''--'' (c # s) \<Longrightarrow> \<not> sublist ''--'' s"
  by (simp add: sublist_Cons_right)

lemma no_double_Cons2:
  "\<not> sublist ''--'' (CHR ''-'' # d # t) \<Longrightarrow> d \<noteq> CHR ''-''"
  by (auto simp: sublist_Cons_right)

lemma collapse_runs_id:
  "\<forall>c \<in> set s. cls c \<longrightarrow> c = CHR ''-'' \<Longrightarrow> \<not> sublist ''--'' s \<Longrightarrow> collapse_runs cls s = s"
proof (induction cls s rule: collapse_runs.induct)
  case (1 cls)
  then show ?case by simp
next
  case (2 cls c s)
  have tl: "\<not> sublist ''--'' s" using 2(4) by (rule no_double_Cons)
  have all: "\<forall>c \<in> set s. cls c \<longrightarrow> c = CHR ''-''" using 2(3) by simp
  show ?case
  proof (cases "cls c")
    case True
    then have c: "c = CHR ''-''" using 2(3) by simp
    have dw: "dropWhile cls s = s"
    proof (cases s)
      case Nil
      then show ?thesis by simp
    next
      case (Cons d t)
      have "\<not> sublist ''--'' (CHR ''-'' # d # t)" using 2(4) c Cons by simp
      then have "d \<noteq> CHR ''-''" by (rule no_double_Cons2)
      moreover have "cls d \<longrightarrow> d = CHR ''-''" using all Cons by simp
      ultimately have "\<not> cls d" by blast
      then show ?thesis using Cons by simp
    qed
    have "collapse_runs cls (dropWhile cls s) = dropWhile cls s"
    proof (rule 2(1)[OF True])
      show "\<forall>c\<in>set (dropWhile cls s). cls c \<longrightarrow> c = CHR ''-''" using all dw by simp
      show "\<not> sublist ''--'' (dropWhile cls s)" using tl dw by simp
    qed
    then have "collapse_runs cls (dropWhile cls s) = s" using dw by simp
    then show ?thesis using True c by simp
  next
    case False
    have "collapse_runs cls s = s" using 2(2)[OF False all tl] .
    then show ?thesis using False by simp
  qed
qed

lemma dropWhile_hd_id: "xs = [] \<or> \<not> P (hd xs) \<Longrightarrow> dropWhile P xs = xs"
  by (cases xs) auto

lemma strip_generic_id:
  assumes "s = [] \<or> (\<not> P (hd s) \<and> \<not> P (last s))"
  shows "rev (dropWhile P (rev (dropWhile P s))) = s"
proof -
  have 1: "dropWhile P s = s" using assms by (intro dropWhile_hd_id) auto
  have "rev s = [] \<or> \<not> P (hd (rev s))" using assms by (auto simp: hd_rev)
  then have 2: "dropWhile P (rev s) = rev s" by (rule dropWhile_hd_id)
  show ?thesis by (simp add: 1 2)
qed

lemma strip_generic_shape:
  "rev (dropWhile P (rev (dropWhile P s))) = [] \<or>
   (\<not> P (hd (rev (dropWhile P (rev (dropWhile P s))))) \<and>
    \<not> P (last (rev (dropWhile P (rev (dropWhile P s))))))"
proof -
  let ?a = "dropWhile P s"
  let ?b = "dropWhile P (rev ?a)"
  show ?thesis
  proof (cases "?b = []")
    case True
    then show ?thesis by simp
  next
    case False
    then have b: "\<not> P (hd ?b)" using hd_dropWhile[of P "rev ?a"] by blast
    have a: "?a \<noteq> []"
    proof
      assume e: "?a = []"
      have "?b = []" unfolding e by simp
      then show False using False by simp
    qed
    then have ha: "\<not> P (hd ?a)" using hd_dropWhile[of P s] by blast
    have "takeWhile P (rev ?a) @ ?b = rev ?a" by simp
    then have "last (rev ?a) = last ?b" using False by (metis last_appendR)
    then have "last ?b = last (rev ?a)" by simp
    then have "last ?b = hd ?a" using a by (simp add: last_rev)
    then have "\<not> P (hd (rev ?b))" using ha False by (simp add: hd_rev)
    moreover have "\<not> P (last (rev ?b))" using b False by (simp add: last_rev)
    ultimately show ?thesis by blast
  qed
qed

lemma strip_generic_set: "set (rev (dropWhile P (rev (dropWhile P s)))) \<subseteq> set s"
proof
  fix x assume "x \<in> set (rev (dropWhile P (rev (dropWhile P s))))"
  then have "x \<in> set (dropWhile P (rev (dropWhile P s)))" by simp
  then have "x \<in> set (rev (dropWhile P s))" by (rule set_dropWhileD)
  then have "x \<in> set (dropWhile P s)" by simp
  then show "x \<in> set s" by (rule set_dropWhileD)
qed

lemma strip_generic_sublist: "sublist (rev (dropWhile P (rev (dropWhile P s)))) s"
proof -
  have 1: "sublist (dropWhile P s) s"
    by (rule suffix_imp_sublist) (rule suffix_dropWhile)
  have "suffix (dropWhile P (rev (dropWhile P s))) (rev (dropWhile P s))"
    by (rule suffix_dropWhile)
  then have "sublist (dropWhile P (rev (dropWhile P s))) (rev (dropWhile P s))"
    by (rule suffix_imp_sublist)
  then have 2: "sublist (rev (dropWhile P (rev (dropWhile P s)))) (dropWhile P s)"
    using sublist_rev[of "dropWhile P (rev (dropWhile P s))" "rev (dropWhile P s)"] by simp
  from 2 1 show ?thesis by (rule sublist_order.order_trans)
qed

lemma strip_generic_no_cls:
  "\<forall>c \<in> set s. \<not> P c \<Longrightarrow> rev (dropWhile P (rev (dropWhile P s))) = s"
  by (rule strip_generic_id) (cases s, auto)

section \<open>Facts about the character classes\<close>

lemma toLowerCase_char_fixed:
  "\<not> (65 \<le> (of_char c :: nat) \<and> (of_char c :: nat) \<le> 90) \<Longrightarrow>
   \<not> (192 \<le> (of_char c :: nat) \<and> (of_char c :: nat) \<le> 222) \<Longrightarrow> toLowerCase_char c = c"
  by (auto simp: toLowerCase_char_def Let_def)

lemma toLowerCase_char_not_upper:
  "\<not> (65 \<le> (of_char (toLowerCase_char c) :: nat) \<and> (of_char (toLowerCase_char c) :: nat) \<le> 90)"
  by (auto simp: toLowerCase_char_def Let_def)

lemma is_az09_lower: "is_az09 c \<Longrightarrow> toLowerCase_char c = c"
  by (rule toLowerCase_char_fixed) (auto simp: is_az09_def Let_def)

lemma hyphen_lower: "toLowerCase_char CHR ''-'' = CHR ''-''"
  by (simp add: toLowerCase_char_def)

lemma is_az09_not_space: "is_az09 c \<Longrightarrow> \<not> is_space c"
  by (auto simp: is_az09_def is_space_def Let_def)

lemma hyphen_not_space: "\<not> is_space CHR ''-''"
  by (simp add: is_space_def)

lemma hyphen_not_az09: "\<not> is_az09 CHR ''-''"
  by (simp add: is_az09_def)

lemma is_space_lower: "is_space c \<Longrightarrow> toLowerCase_char c = c"
  by (rule toLowerCase_char_fixed) (auto simp: is_space_def)

lemma is_space_not_az09: "is_space c \<Longrightarrow> \<not> is_az09 c"
  using is_az09_not_space by blast

lemma is_word_lower:
  "is_word (toLowerCase_char c) \<Longrightarrow> toLowerCase_char (toLowerCase_char c) = toLowerCase_char c"
  using toLowerCase_char_not_upper[of c]
  by (intro toLowerCase_char_fixed) (auto simp: is_word_def Let_def)

lemma is_word_not_space: "is_word c \<Longrightarrow> \<not> is_space c"
  by (auto simp: is_word_def is_space_def Let_def)

lemma hyphen_not_word: "\<not> is_word CHR ''-''"
  by (simp add: is_word_def)

lemma collapse_runs_append:
  "ys = [] \<or> \<not> cls (hd ys) \<Longrightarrow>
     collapse_runs cls (xs @ ys) = collapse_runs cls xs @ collapse_runs cls ys"
proof (induction cls xs rule: collapse_runs.induct)
  case (1 cls)
  then show ?case by simp
next
  case (2 cls c xs)
  show ?case
  proof (cases "cls c")
    case True
    have ys: "dropWhile cls ys = ys" using 2(3) by (rule dropWhile_hd_id)
    show ?thesis
    proof (cases "\<forall>x \<in> set xs. cls x")
      case all: True
      then have e: "dropWhile cls xs = []" by simp
      have "dropWhile cls (xs @ ys) = ys"
        using all ys by (simp add: dropWhile_append)
      then show ?thesis using True e by (simp del: dropWhile_eq_Nil_conv)
    next
      case False
      then have "dropWhile cls (xs @ ys) = dropWhile cls xs @ ys"
        by (auto simp: dropWhile_append)
      then show ?thesis using True 2(1)[OF True 2(3)] by simp
    qed
  next
    case False
    then show ?thesis using 2(2)[OF False 2(3)] by simp
  qed
qed

lemma collapse_runs_all:
  assumes "s \<noteq> []" "\<forall>c \<in> set s. cls c"
  shows "collapse_runs cls s = ''-''"
proof (cases s)
  case Nil
  then show ?thesis using assms by simp
next
  case (Cons c t)
  have "dropWhile cls t = []" using assms(2) Cons by simp
  moreover have "cls c" using assms(2) Cons by simp
  ultimately show ?thesis using Cons by (simp del: dropWhile_eq_Nil_conv)
qed

lemma collapse_runs_Nil_iff: "collapse_runs cls s = [] \<longleftrightarrow> s = []"
  by (cases s) auto

lemma collapse_space_run:
  "\<forall>c \<in> set r. is_space c \<or> is_hyphen c \<Longrightarrow> \<forall>c \<in> set (collapse_runs is_space r). is_hyphen c"
proof
  fix c assume a: "\<forall>c \<in> set r. is_space c \<or> is_hyphen c" and c: "c \<in> set (collapse_runs is_space r)"
  from collapse_runs_set[OF c] a show "is_hyphen c" by (auto simp: is_hyphen_def)
qed

lemma collapse_hyphen_space:
  "collapse_runs is_hyphen (collapse_runs is_space t)
     = collapse_runs (\<lambda>c. is_space c \<or> is_hyphen c) t"
proof (induction t rule: length_induct)
  case (1 t)
  let ?sh = "\<lambda>c. is_space c \<or> is_hyphen c"
  show ?case
  proof (cases t)
    case Nil
    then show ?thesis by simp
  next
    case (Cons c s)
    show ?thesis
    proof (cases "?sh c")
      case False
      then have "collapse_runs is_hyphen (collapse_runs is_space t)
                   = c # collapse_runs is_hyphen (collapse_runs is_space s)"
        using Cons by simp
      moreover have "collapse_runs is_hyphen (collapse_runs is_space s) = collapse_runs ?sh s"
        using 1 Cons by simp
      ultimately show ?thesis using False Cons by simp
    next
      case True
      let ?r = "takeWhile ?sh t"
      let ?u = "dropWhile ?sh t"
      have t: "t = ?r @ ?u" by simp
      have r_ne: "?r \<noteq> []" using True Cons by simp
      have r_all: "\<forall>c \<in> set ?r. ?sh c" by (auto dest: set_takeWhileD)
      have u_hd: "?u = [] \<or> \<not> ?sh (hd ?u)" by (rule dropWhile_hd)
      then have u_sp: "?u = [] \<or> \<not> is_space (hd ?u)" by blast
      have len: "length ?u < length t"
        using r_ne t by (metis length_append length_greater_0_conv less_add_same_cancel2)
      have S: "collapse_runs is_space t = collapse_runs is_space ?r @ collapse_runs is_space ?u"
        using collapse_runs_append[where cls=is_space and xs="?r" and ys="?u"] u_sp by simp
      have Sr_ne: "collapse_runs is_space ?r \<noteq> []" using r_ne by (simp add: collapse_runs_Nil_iff)
      have Sr_all: "\<forall>c \<in> set (collapse_runs is_space ?r). is_hyphen c"
        using collapse_space_run[OF r_all] .
      have Su_hd: "collapse_runs is_space ?u = [] \<or> \<not> is_hyphen (hd (collapse_runs is_space ?u))"
      proof (cases ?u)
        case Nil
        then show ?thesis by (simp del: dropWhile_eq_Nil_conv)
      next
        case (Cons d u')
        then have "\<not> ?sh d" using u_hd by simp
        then show ?thesis using Cons by (simp del: dropWhile_eq_Nil_conv)
      qed
      have "collapse_runs is_hyphen (collapse_runs is_space t)
              = collapse_runs is_hyphen (collapse_runs is_space ?r)
                  @ collapse_runs is_hyphen (collapse_runs is_space ?u)"
        using collapse_runs_append[where cls=is_hyphen and xs="collapse_runs is_space ?r" and ys="collapse_runs is_space ?u"] Su_hd S by simp
      also have "collapse_runs is_hyphen (collapse_runs is_space ?r) = ''-''"
        using collapse_runs_all[OF Sr_ne Sr_all] .
      also have "collapse_runs is_hyphen (collapse_runs is_space ?u) = collapse_runs ?sh ?u"
        using 1 len by blast
      finally have L: "collapse_runs is_hyphen (collapse_runs is_space t)
                         = CHR ''-'' # collapse_runs ?sh ?u" by simp
      have "?u = dropWhile ?sh s" using True Cons by simp
      then have "collapse_runs ?sh t = CHR ''-'' # collapse_runs ?sh ?u"
        using True Cons by simp
      then show ?thesis using L by simp
    qed
  qed
qed

section \<open>The normalizers against their description\<close>

lemma slug_shape:
  assumes "cls CHR ''-''"
  shows "\<forall>c \<in> set (strip_separators (collapse_runs cls t)). (c \<in> set t \<and> \<not> cls c) \<or> c = CHR ''-''"
    and "\<not> sublist ''--'' (strip_separators (collapse_runs cls t))"
    and "strip_separators (collapse_runs cls t) = [] \<or>
         (\<not> is_hyphen (hd (strip_separators (collapse_runs cls t))) \<and>
          \<not> is_hyphen (last (strip_separators (collapse_runs cls t))))"
proof -
  show "\<forall>c \<in> set (strip_separators (collapse_runs cls t)). (c \<in> set t \<and> \<not> cls c) \<or> c = CHR ''-''"
  proof
    fix c assume "c \<in> set (strip_separators (collapse_runs cls t))"
    then have "c \<in> set (collapse_runs cls t)"
      using strip_generic_set[of is_hyphen "collapse_runs cls t"]
      by (auto simp: strip_separators_def)
    then show "(c \<in> set t \<and> \<not> cls c) \<or> c = CHR ''-''" by (rule collapse_runs_set)
  qed
  have "sublist (strip_separators (collapse_runs cls t)) (collapse_runs cls t)"
    unfolding strip_separators_def by (rule strip_generic_sublist)
  then show "\<not> sublist ''--'' (strip_separators (collapse_runs cls t))"
    using collapse_runs_single[where cls=cls and s=t] assms sublist_order.order_trans by blast
  show "strip_separators (collapse_runs cls t) = [] \<or>
         (\<not> is_hyphen (hd (strip_separators (collapse_runs cls t))) \<and>
          \<not> is_hyphen (last (strip_separators (collapse_runs cls t))))"
    unfolding strip_separators_def by (rule strip_generic_shape)
qed

lemma slug_fixed:
  assumes "\<forall>c \<in> set s. cls c \<longrightarrow> c = CHR ''-''" and "\<not> sublist ''--'' s"
    and "s = [] \<or> (\<not> is_hyphen (hd s) \<and> \<not> is_hyphen (last s))"
  shows "strip_separators (collapse_runs cls s) = s"
proof -
  have "collapse_runs cls s = s" using assms(1,2) by (rule collapse_runs_id)
  moreover have "strip_separators s = s"
    unfolding strip_separators_def using assms(3) by (rule strip_generic_id)
  ultimately show ?thesis by simp
qed

lemma makeUrlFriendly_unfold:
  "makeUrlFriendly s =
     (if s = [] then []
      else trim (strip_separators (collapse_runs (\<lambda>c. \<not> is_az09 c) (toLowerCase s))))"
  by (simp add: makeUrlFriendly_def replace_g_match_plus replace_g_edge_True)

lemma createSlug_unfold:
  "createSlug s =
     (if s = [] then []
      else strip_separators (collapse_runs (\<lambda>c. is_space c \<or> is_hyphen c)
             (filter (\<lambda>c. is_word c \<or> is_space c \<or> is_hyphen c) (trim (toLowerCase s)))))"
  by (simp add: createSlug_def replace_g_match_plus replace_g_edge_True replace_g_match_one
      collapse_hyphen_space)

lemma normalize_spec_chars:
  "c \<in> set (normalize_spec s) \<Longrightarrow> is_az09 c \<or> c = CHR ''-''"
  using slug_shape(1)[of "\<lambda>c. \<not> is_az09 c" "toLowerCase s"]
  by (auto simp: normalize_spec_def hyphen_not_az09)

lemma makeUrlFriendly_is_normalize_spec: "makeUrlFriendly s = normalize_spec s"
proof (cases "s = []")
  case True
  then show ?thesis
    by (simp add: makeUrlFriendly_def normalize_spec_def strip_separators_def toLowerCase_def)
next
  case False
  have "\<forall>c \<in> set (normalize_spec s). \<not> is_space c"
    using normalize_spec_chars is_az09_not_space hyphen_not_space by blast
  then have "trim (normalize_spec s) = normalize_spec s"
    unfolding trim_def by (rule strip_generic_no_cls)
  then show ?thesis using False by (simp add: makeUrlFriendly_unfold normalize_spec_def)
qed

lemma toLowerCase_id: "\<forall>c \<in> set s. toLowerCase_char c = c \<Longrightarrow> toLowerCase s = s"
  by (simp add: toLowerCase_def map_idI)

lemma normalize_spec_idem: "normalize_spec (normalize_spec s) = normalize_spec s"
proof -
  let ?o = "normalize_spec s"
  have ch: "\<forall>c \<in> set ?o. is_az09 c \<or> c = CHR ''-''" using normalize_spec_chars by blast
  then have "\<forall>c \<in> set ?o. toLowerCase_char c = c"
    using is_az09_lower hyphen_lower by blast
  then have lo: "toLowerCase ?o = ?o" by (rule toLowerCase_id)
  have 1: "\<forall>c \<in> set ?o. \<not> is_az09 c \<longrightarrow> c = CHR ''-''" using ch by blast
  have 2: "\<not> sublist ''--'' ?o"
    unfolding normalize_spec_def by (rule slug_shape(2)) (rule hyphen_not_az09)
  have 3: "?o = [] \<or> (\<not> is_hyphen (hd ?o) \<and> \<not> is_hyphen (last ?o))"
    unfolding normalize_spec_def by (rule slug_shape(3)) (rule hyphen_not_az09)
  have "strip_separators (collapse_runs (\<lambda>c. \<not> is_az09 c) ?o) = ?o"
    using 1 2 3 by (rule slug_fixed)
  then show ?thesis using lo by (simp add: normalize_spec_def)
qed

lemma toLowerCase_space: "\<forall>c \<in> set s. is_space c \<Longrightarrow> toLowerCase s = s"
  using is_space_lower by (intro toLowerCase_id) blast

lemma trim_all_space:
  assumes "\<forall>c \<in> set s. is_space c"
  shows "trim s = []"
proof -
  have "dropWhile is_space s = []" using assms by simp
  then show ?thesis unfolding trim_def by (simp del: dropWhile_eq_Nil_conv)
qed

lemma makeUrlFriendly_blank:
  assumes "\<forall>c \<in> set s. is_space c"
  shows "makeUrlFriendly s = []"
proof (cases "s = []")
  case True
  then show ?thesis by (simp add: makeUrlFriendly_def)
next
  case False
  have "\<forall>c \<in> set s. \<not> is_az09 c" using assms is_space_not_az09 by blast
  then have "collapse_runs (\<lambda>c. \<not> is_az09 c) s = ''-''"
    using False by (intro collapse_runs_all) auto
  then have "normalize_spec s = []"
    using assms by (simp add: normalize_spec_def toLowerCase_space strip_separators_def is_hyphen_def)
  then show ?thesis by (simp add: makeUrlFriendly_is_normalize_spec)
qed

lemma createSlug_blank:
  assumes "\<forall>c \<in> set s. is_space c"
  shows "createSlug s = []"
proof -
  have "trim (toLowerCase s) = []"
    using assms by (simp add: toLowerCase_space trim_all_space)
  then show ?thesis by (simp add: createSlug_unfold strip_separators_def)
qed

lemma createSlug_chars:
  assumes "c \<in> set (createSlug s)"
  shows "c = CHR ''-'' \<or> (is_word c \<and> (\<exists>d. c = toLowerCase_char d))"
proof (cases "s = []")
  case True
  then show ?thesis using assms by (simp add: createSlug_def)
next
  case False
  let ?sh = "\<lambda>c. is_space c \<or> is_hyphen c"
  let ?t = "filter (\<lambda>c. is_word c \<or> is_space c \<or> is_hyphen c) (trim (toLowerCase s))"
  have "?sh CHR ''-''" by (simp add: is_hyphen_def)
  from slug_shape(1)[where cls="?sh" and t="?t", OF this] assms False
  have "(c \<in> set ?t \<and> \<not> ?sh c) \<or> c = CHR ''-''" by (simp add: createSlug_unfold)
  then show ?thesis
  proof
    assume a: "c \<in> set ?t \<and> \<not> ?sh c"
    then have w: "is_word c" by auto
    have "c \<in> set (trim (toLowerCase s))" using a by simp
    then have "c \<in> set (toLowerCase s)"
      using strip_generic_set[of is_space "toLowerCase s"] by (auto simp: trim_def)
    then have "\<exists>d. c = toLowerCase_char d" by (auto simp: toLowerCase_def)
    then show ?thesis using w by blast
  next
    assume "c = CHR ''-''"
    then show ?thesis by simp
  qed
qed

lemma createSlug_shape:
  "\<not> sublist ''--'' (createSlug s)"
  "createSlug s = [] \<or> (\<not> is_hyphen (hd (createSlug s)) \<and> \<not> is_hyphen (last (createSlug s)))"
proof -
  have sh: "is_space CHR ''-'' \<or> is_hyphen CHR ''-''" by (simp add: is_hyphen_def)
  note sh2 = slug_shape(2)[where cls="\<lambda>c. is_space c \<or> is_hyphen c"]
  note sh3 = slug_shape(3)[where cls="\<lambda>c. is_space c \<or> is_hyphen c"]
  show "\<not> sublist ''--'' (createSlug s)"
  proof (cases "s = []")
    case True
    then show ?thesis by (simp add: createSlug_def)
  next
    case False
    then show ?thesis unfolding createSlug_unfold using sh2 sh by simp
  qed
  show "createSlug s = [] \<or> (\<not> is_hyphen (hd (createSlug s)) \<and> \<not> is_hyphen (last (createSlug s)))"
  proof (cases "s = []")
    case True
    then show ?thesis by (simp add: createSlug_def)
  next
    case False
    then show ?thesis unfolding createSlug_unfold using sh3 sh by simp
  qed
qed

lemma createSlug_fixed:
  assumes ch: "\<forall>c \<in> set x. c = CHR ''-'' \<or> (is_word c \<and> (\<exists>d. c = toLowerCase_char d))"
    and 2: "\<not> sublist ''--'' x"
    and 3: "x = [] \<or> (\<not> is_hyphen (hd x) \<and> \<not> is_hyphen (last x))"
  shows "createSlug x = x"
proof (cases "x = []")
  case True
  then show ?thesis by (simp add: createSlug_def)
next
  case ne: False
  have "\<forall>c \<in> set x. toLowerCase_char c = c"
  proof
    fix c assume "c \<in> set x"
    then have "c = CHR ''-'' \<or> (is_word c \<and> (\<exists>d. c = toLowerCase_char d))" using ch by blast
    then show "toLowerCase_char c = c"
    proof
      assume "c = CHR ''-''"
      then show ?thesis by (simp add: hyphen_lower)
    next
      assume "is_word c \<and> (\<exists>d. c = toLowerCase_char d)"
      then obtain d where "is_word (toLowerCase_char d)" "c = toLowerCase_char d" by blast
      then show ?thesis using is_word_lower[of d] by simp
    qed
  qed
  then have lo: "toLowerCase x = x" by (rule toLowerCase_id)
  have w: "c = CHR ''-'' \<or> is_word c" if "c \<in> set x" for c
    using ch that by blast
  have "\<forall>c \<in> set x. \<not> is_space c"
  proof
    fix c assume "c \<in> set x"
    from w[OF this] show "\<not> is_space c"
      using hyphen_not_space is_word_not_space by blast
  qed
  then have tr: "trim x = x" unfolding trim_def by (rule strip_generic_no_cls)
  have "\<forall>c \<in> set x. is_word c \<or> is_space c \<or> is_hyphen c"
  proof
    fix c assume "c \<in> set x"
    from w[OF this] show "is_word c \<or> is_space c \<or> is_hyphen c"
      by (auto simp: is_hyphen_def)
  qed
  then have fi: "filter (\<lambda>c. is_word c \<or> is_space c \<or> is_hyphen c) x = x" by simp
  have 1: "\<forall>c \<in> set x. is_space c \<or> is_hyphen c \<longrightarrow> c = CHR ''-''"
  proof
    fix c assume "c \<in> set x"
    from w[OF this] show "is_space c \<or> is_hyphen c \<longrightarrow> c = CHR ''-''"
      using is_word_not_space[of c] by (auto simp: is_hyphen_def)
  qed
  have fx: "strip_separators (collapse_runs (\<lambda>c. is_space c \<or> is_hyphen c) x) = x"
    using 1 2 3 by (rule slug_fixed)
  have "createSlug x = strip_separators (collapse_runs (\<lambda>c. is_space c \<or> is_hyphen c)
             (filter (\<lambda>c. is_word c \<or> is_space c \<or> is_hyphen c) (trim (toLowerCase x))))"
    using ne createSlug_unfold[of x] by simp
  also have "\<dots> = strip_separators (collapse_runs (\<lambda>c. is_space c \<or> is_hyphen c) x)"
    by (simp only: lo tr fi)
  finally show ?thesis using fx by simp
qed

lemma createSlug_idem: "createSlug (createSlug s) = createSlug s"
proof (rule createSlug_fixed)
  show "\<forall>c \<in> set (createSlug s). c = CHR ''-'' \<or> (is_word c \<and> (\<exists>d. c = toLowerCase_char d))"
    using createSlug_chars by blast
  show "\<not> sublist ''--'' (createSlug s)" by (rule createSlug_shape(1))
  show "createSlug s = [] \<or> (\<not> is_hyphen (hd (createSlug s)) \<and> \<not> is_hyphen (last (createSlug s)))"
    by (rule createSlug_shape(2))
qed

section \<open>What the two normalizers compute\<close>

text \<open>
  Claim C4, as the code has it. \<^verbatim>\<open>makeUrlFriendly\<close>, the normalizer of the resolver, lower-cases
  its input, replaces every maximal run of characters outside \<^verbatim>\<open>[a-z0-9]\<close> with a single
  hyphen and strips leading and trailing hyphens. \<^verbatim>\<open>createSlug\<close> is a different function: it
  lower-cases and trims the input, deletes every character that is neither a word
  character, white space nor a hyphen, replaces every maximal run of white space and
  hyphens with a single hyphen and strips leading and trailing hyphens. Both map an empty
  or white-space-only input to the empty string.
\<close>

theorem normalizers_described:
  "makeUrlFriendly s = normalize_spec s \<and>
   createSlug s =
     strip_separators (collapse_runs (\<lambda>c. is_space c \<or> is_hyphen c)
       (filter (\<lambda>c. is_word c \<or> is_space c \<or> is_hyphen c) (trim (toLowerCase s)))) \<and>
   ((\<forall>c \<in> set s. is_space c) \<longrightarrow> makeUrlFriendly s = [] \<and> createSlug s = [])"
proof (intro conjI impI)
  show "makeUrlFriendly s = normalize_spec s" by (rule makeUrlFriendly_is_normalize_spec)
  show "createSlug s =
     strip_separators (collapse_runs (\<lambda>c. is_space c \<or> is_hyphen c)
       (filter (\<lambda>c. is_word c \<or> is_space c \<or> is_hyphen c) (trim (toLowerCase s))))"
  proof (cases "s = []")
    case True
    then show ?thesis
      by (simp add: createSlug_def toLowerCase_def trim_def strip_separators_def)
  next
    case False
    then show ?thesis by (simp add: createSlug_unfold)
  qed
next
  assume "\<forall>c \<in> set s. is_space c"
  then show "makeUrlFriendly s = []" by (rule makeUrlFriendly_blank)
next
  assume "\<forall>c \<in> set s. is_space c"
  then show "createSlug s = []" by (rule createSlug_blank)
qed

theorem normalizers_described_witness:
  "is_space CHR '' '' \<and> makeUrlFriendly ''  '' = [] \<and> createSlug ''  '' = []"
proof -
  have c: "is_space CHR '' ''" by (simp add: is_space_def)
  then have h: "\<forall>c \<in> set ''  ''. is_space c" by simp
  from normalizers_described[of "''  ''"] h c show ?thesis by blast
qed

theorem createSlug_differs_from_normalize:
  "createSlug ''Bad_Ice.Cream'' = ''bad_icecream'' \<and>
   normalize_spec ''Bad_Ice.Cream'' = ''bad-ice-cream'' \<and>
   createSlug ''Bad_Ice.Cream'' \<noteq> normalize_spec ''Bad_Ice.Cream''"
proof -
  have a: "createSlug ''Bad_Ice.Cream'' = ''bad_icecream''" by code_simp
  have b: "normalize_spec ''Bad_Ice.Cream'' = ''bad-ice-cream''" by code_simp
  from a b show ?thesis by simp
qed

text \<open>
  Claim C5. Both normalizers are idempotent: applying \<^verbatim>\<open>makeUrlFriendly\<close> or
  \<^verbatim>\<open>createSlug\<close> to its own result changes nothing.
\<close>

theorem normalizers_idempotent:
  "makeUrlFriendly (makeUrlFriendly s) = makeUrlFriendly s \<and>
   createSlug (createSlug s) = createSlug s"
proof
  have "normalize_spec (normalize_spec s) = normalize_spec s" by (rule normalize_spec_idem)
  then show "makeUrlFriendly (makeUrlFriendly s) = makeUrlFriendly s"
    by (simp only: makeUrlFriendly_is_normalize_spec)
  show "createSlug (createSlug s) = createSlug s" by (rule createSlug_idem)
qed

section \<open>Building the lookup table\<close>

lemma map_of_update_other:
  "k' \<noteq> k \<Longrightarrow> map_of (map (\<lambda>p. if fst p = k then (k, v) else p) ps) k' = map_of ps k'"
  by (induction ps) auto

lemma map_of_update_same:
  "map_of ps k = Some x \<Longrightarrow> map_of (map (\<lambda>p. if fst p = k then (k, v) else p) ps) k = Some v"
  by (induction ps) (auto split: if_splits)

lemma map_of_insert_index:
  "map_of (insert_index k v ps) k' = (if k' = k then Some v else map_of ps k')"
  by (induction ps) auto

lemma map_of_obj_set:
  "map_of (obj_set ps k v) k' = (if k' = k then Some v else map_of ps k')"
proof (cases "k \<in> fst ` set ps")
  case True
  then obtain x where "map_of ps k = Some x"
    by (metis map_of_eq_None_iff not_Some_eq)
  then show ?thesis using True
    by (simp add: obj_set_def map_of_update_other map_of_update_same)
next
  case False
  then have "map_of ps k = None" by (simp add: map_of_eq_None_iff)
  then show ?thesis using False
    by (auto simp: obj_set_def map_of_insert_index map_add_def split: option.splits)
qed

lemma own_table_set:
  "key \<noteq> ''__proto__'' \<Longrightarrow>
     map_of (own (table_set t k v)) key = (if key = k then Some v else map_of (own t) key)"
  by (auto simp: table_set_def map_of_obj_set split: json.splits prototype.splits)

lemma entry_id_get_member:
  "well_formed_entry g \<Longrightarrow>
     \<exists>i. get_member g ''id'' = Inr i \<and>
       (case entry_id g of
          Some s \<Rightarrow> i = Val (JStr s) \<and> s \<noteq> []
        | None \<Rightarrow> \<not> truthy_val i)"
  by (cases g) (auto split: option.splits json.splits)

lemma add_game_lookup:
  assumes "well_formed_entry g"
  shows "\<exists>t'. add_game t g = Inr t' \<and>
           (\<forall>key. key \<noteq> ''__proto__'' \<longrightarrow>
              map_of (own t') key =
                (if map_option toLowerCase (entry_id g) = Some key then Some g
                 else map_of (own t) key))"
proof -
  from entry_id_get_member[OF assms] obtain i where
    i: "get_member g ''id'' = Inr i" and
    c: "case entry_id g of Some s \<Rightarrow> i = Val (JStr s) \<and> s \<noteq> [] | None \<Rightarrow> \<not> truthy_val i"
    by blast
  show ?thesis
  proof (cases "entry_id g")
    case None
    then have "add_game t g = Inr t" using i c by (simp add: add_game_def bind_err_def)
    then show ?thesis using None by simp
  next
    case (Some s)
    then have "add_game t g = Inr (table_set t (toLowerCase s) g)"
      using i c by (simp add: add_game_def bind_err_def)
    then show ?thesis using Some by (auto simp: own_table_set)
  qed
qed

lemma find_append:
  "find P (xs @ ys) = (case find P xs of Some x \<Rightarrow> Some x | None \<Rightarrow> find P ys)"
  by (induction xs) auto

lemma last_with_id_Cons:
  "last_with_id key (g # gs) =
     (case last_with_id key gs of
        Some e \<Rightarrow> Some e
      | None \<Rightarrow> if map_option toLowerCase (entry_id g) = Some key then Some g else None)"
  by (simp add: last_with_id_def find_append split: option.splits)

lemma last_with_id_append:
  "last_with_id key (xs @ ys) =
     (case last_with_id key ys of Some e \<Rightarrow> Some e | None \<Rightarrow> last_with_id key xs)"
  by (simp add: last_with_id_def find_append split: option.splits)

lemma add_games_lookup:
  assumes "\<forall>g \<in> set gs. well_formed_entry g"
  shows "\<exists>t'. add_games t gs = Inr t' \<and>
           (\<forall>key. key \<noteq> ''__proto__'' \<longrightarrow>
              map_of (own t') key =
                (case last_with_id key gs of Some e \<Rightarrow> Some e | None \<Rightarrow> map_of (own t) key))"
  using assms
proof (induction gs arbitrary: t)
  case Nil
  then show ?case by (simp add: last_with_id_def)
next
  case (Cons g gs)
  from Cons.prems have wf: "well_formed_entry g" and rest: "\<forall>g \<in> set gs. well_formed_entry g"
    by auto
  from add_game_lookup[OF wf, of t] obtain t1 where
    t1: "add_game t g = Inr t1" and
    l1: "\<And>key. key \<noteq> ''__proto__'' \<Longrightarrow> map_of (own t1) key =
           (if map_option toLowerCase (entry_id g) = Some key then Some g else map_of (own t) key)"
    by blast
  from Cons.IH[OF rest, of t1] obtain t2 where
    t2: "add_games t1 gs = Inr t2" and
    l2: "\<And>key. key \<noteq> ''__proto__'' \<Longrightarrow> map_of (own t2) key =
           (case last_with_id key gs of Some e \<Rightarrow> Some e | None \<Rightarrow> map_of (own t1) key)"
    by blast
  have "add_games t (g # gs) = Inr t2" using t1 t2 by (simp add: bind_err_def)
  moreover have "map_of (own t2) key =
      (case last_with_id key (g # gs) of Some e \<Rightarrow> Some e | None \<Rightarrow> map_of (own t) key)"
    if "key \<noteq> ''__proto__''" for key
    using l1[OF that] l2[OF that] by (auto simp: last_with_id_Cons split: option.splits)
  ultimately show ?case by blast
qed

lemma other_collections_lookup:
  assumes "well_formed_arrays kvs"
  shows "\<exists>t'. other_collections t kvs = Inr t' \<and>
           (\<forall>key. key \<noteq> ''__proto__'' \<longrightarrow>
              map_of (own t') key =
                (case last_with_id key (other_entries kvs) of
                   Some e \<Rightarrow> Some e
                 | None \<Rightarrow> map_of (own t) key))"
  using assms
proof (induction kvs arbitrary: t)
  case Nil
  then show ?case by (simp add: other_entries_def last_with_id_def)
next
  case (Cons p kvs)
  obtain k v where p: "p = (k, v)" by (cases p)
  from Cons.prems have rest: "well_formed_arrays kvs"
    by (simp add: well_formed_arrays_def)
  let ?gs = "case v of JArr gs \<Rightarrow> if k \<noteq> ''nitromeGames'' then gs else [] | _ \<Rightarrow> []"
  have wf: "\<forall>g \<in> set ?gs. well_formed_entry g"
    using Cons.prems p by (auto simp: well_formed_arrays_def list_all_iff split: json.splits)
  have step: "(case v of
                 JArr games \<Rightarrow> if k \<noteq> ''nitromeGames'' then add_games t games else Inr t
               | _ \<Rightarrow> Inr t) = add_games t ?gs"
    by (simp split: json.splits)
  from add_games_lookup[OF wf, of t] obtain t1 where
    t1: "add_games t ?gs = Inr t1" and
    l1: "\<And>key. key \<noteq> ''__proto__'' \<Longrightarrow> map_of (own t1) key =
           (case last_with_id key ?gs of Some e \<Rightarrow> Some e | None \<Rightarrow> map_of (own t) key)"
    by blast
  from Cons.IH[OF rest, of t1] obtain t2 where
    t2: "other_collections t1 kvs = Inr t2" and
    l2: "\<And>key. key \<noteq> ''__proto__'' \<Longrightarrow> map_of (own t2) key =
           (case last_with_id key (other_entries kvs) of
              Some e \<Rightarrow> Some e | None \<Rightarrow> map_of (own t1) key)"
    by blast
  have "other_collections t (p # kvs) = Inr t2"
    using p step t1 t2 by (simp add: bind_err_def)
  moreover have oe: "other_entries (p # kvs) = ?gs @ other_entries kvs"
    using p by (simp add: other_entries_def)
  have "map_of (own t2) key =
      (case last_with_id key (other_entries (p # kvs)) of
         Some e \<Rightarrow> Some e | None \<Rightarrow> map_of (own t) key)"
    if "key \<noteq> ''__proto__''" for key
    unfolding oe using l1[OF that] l2[OF that]
    by (simp add: last_with_id_append split: option.splits)
  ultimately show ?case by blast
qed

section \<open>All arrays are merged, the last write wins\<close>

lemma loadGamesData_try_object:
  "loadGamesData_try (JObj kvs) =
     bind_err (case map_of kvs ''nitromeGames'' of
                 Some (JArr games) \<Rightarrow> add_games (direct_part kvs) games
               | _ \<Rightarrow> Inr (direct_part kvs))
       (\<lambda>t2. other_collections t2 kvs)"
  by (auto simp: loadGamesData_try_def bind_err_def direct_part_def
      split: option.splits json.splits sum.splits)

text \<open>
  For a document that is an object whose arrays hold well-formed entries (no \<^verbatim>\<open>null\<close>
  element, every truthy \<^verbatim>\<open>id\<close> a string), building the table does not fail, and for
  every key other than \<^verbatim>\<open>__proto__\<close> the table holds under that key the entry processed
  last among the entries of all array keys whose lower-cased id is the key; when there is
  no such entry the key holds what case 1 left there. Entries without an id contribute
  nothing. The function returns the table unless it has no key.
\<close>

lemma loadGamesData_merges_other_keys:
  assumes "well_formed_arrays kvs"
  shows "\<exists>t. loadGamesData_try (JObj kvs) = Inr t \<and>
           loadGamesData (JObj kvs) = (if own t = [] then None else Some t) \<and>
           (\<forall>key. key \<noteq> ''__proto__'' \<longrightarrow>
              map_of (own t) key =
                (case last_with_id key (array_entries kvs) of
                   Some e \<Rightarrow> Some e
                 | None \<Rightarrow> map_of (own (direct_part kvs)) key))"
proof -
  let ?gs = "case map_of kvs ''nitromeGames'' of Some (JArr gs) \<Rightarrow> gs | _ \<Rightarrow> []"
  have wf: "\<forall>g \<in> set ?gs. well_formed_entry g"
  proof (cases "map_of kvs ''nitromeGames''")
    case None
    then show ?thesis by simp
  next
    case (Some v)
    then have "(''nitromeGames'', v) \<in> set kvs" by (rule map_of_SomeD)
    then show ?thesis using assms Some
      by (auto simp: well_formed_arrays_def list_all_iff split: json.splits)
  qed
  have step: "(case map_of kvs ''nitromeGames'' of
                 Some (JArr games) \<Rightarrow> add_games (direct_part kvs) games
               | _ \<Rightarrow> Inr (direct_part kvs)) = add_games (direct_part kvs) ?gs"
    by (simp split: option.splits json.splits)
  from add_games_lookup[OF wf, of "direct_part kvs"] obtain t1 where
    t1: "add_games (direct_part kvs) ?gs = Inr t1" and
    l1: "\<And>key. key \<noteq> ''__proto__'' \<Longrightarrow> map_of (own t1) key =
           (case last_with_id key ?gs of
              Some e \<Rightarrow> Some e | None \<Rightarrow> map_of (own (direct_part kvs)) key)"
    by blast
  from other_collections_lookup[OF assms, of t1] obtain t2 where
    t2: "other_collections t1 kvs = Inr t2" and
    l2: "\<And>key. key \<noteq> ''__proto__'' \<Longrightarrow> map_of (own t2) key =
           (case last_with_id key (other_entries kvs) of
              Some e \<Rightarrow> Some e | None \<Rightarrow> map_of (own t1) key)"
    by blast
  have tr: "loadGamesData_try (JObj kvs) = Inr t2"
    unfolding loadGamesData_try_object step using t1 t2 by (simp add: bind_err_def)
  then have res: "loadGamesData (JObj kvs) = (if own t2 = [] then None else Some t2)"
    by (simp add: loadGamesData_def)
  have "map_of (own t2) key =
      (case last_with_id key (array_entries kvs) of
         Some e \<Rightarrow> Some e | None \<Rightarrow> map_of (own (direct_part kvs)) key)"
    if "key \<noteq> ''__proto__''" for key
    using l1[OF that] l2[OF that]
    by (simp add: array_entries_def last_with_id_append split: option.splits)
  then show ?thesis using tr res by blast
qed

lemma loadGamesData_merges_example:
  "well_formed_arrays two_collections \<and>
   last_with_id ''aquanaut'' (array_entries two_collections) = Some aquanaut_again \<and>
   (\<exists>t. loadGamesData (JObj two_collections) = Some t \<and>
        map_of (own t) ''aquanaut'' = Some aquanaut_again \<and>
        map_of (own t) ''bad_ice_cream'' = Some bad_ice_cream)"
proof -
  have wf: "well_formed_arrays two_collections" by code_simp
  have a: "last_with_id ''aquanaut'' (array_entries two_collections) = Some aquanaut_again"
    by code_simp
  have b: "last_with_id ''bad_ice_cream'' (array_entries two_collections) = Some bad_ice_cream"
    by code_simp
  from loadGamesData_merges_other_keys[OF wf] obtain t where
    r: "loadGamesData (JObj two_collections) = (if own t = [] then None else Some t)" and
    l: "\<And>key. key \<noteq> ''__proto__'' \<Longrightarrow> map_of (own t) key =
          (case last_with_id key (array_entries two_collections) of
             Some e \<Rightarrow> Some e
           | None \<Rightarrow> map_of (own (direct_part two_collections)) key)"
    by blast
  have la: "map_of (own t) ''aquanaut'' = Some aquanaut_again" using l[of "''aquanaut''"] a by simp
  have lb: "map_of (own t) ''bad_ice_cream'' = Some bad_ice_cream"
    using l[of "''bad_ice_cream''"] b by simp
  have "own t \<noteq> []" using la by auto
  then have "loadGamesData (JObj two_collections) = Some t" using r by simp
  then show ?thesis using wf a la lb by blast
qed

subsection \<open>An entry whose id is \<^verbatim>\<open>__proto__\<close>\<close>

text \<open>
  Claim C8 at an entry with the id \<^verbatim>\<open>__proto__\<close>: the claim has the table hold this
  entry under the key \<^verbatim>\<open>__proto__\<close>, as the entry processed last with that lower-cased
  id. The assignment \<^verbatim>\<open>processedGames[game.id.toLowerCase()] = game\<close> runs the setter that
  the table inherits instead: no key is stored and the entry becomes the prototype of
  the table. A catalog that holds only this entry is reported as empty (\<^verbatim>\<open>null\<close>); after
  another entry, the table has that entry's key alone.
\<close>

theorem proto_id_entry_is_not_stored:
  "well_formed_arrays proto_only \<and>
   last_with_id ''__proto__'' (array_entries proto_only) = Some proto_entry \<and>
   loadGamesData_try (JObj proto_only) = Inr \<lparr>own = [], proto = ObjectValue proto_entry\<rparr> \<and>
   loadGamesData (JObj proto_only) = None \<and>
   well_formed_arrays proto_and_aquanaut \<and>
   last_with_id ''__proto__'' (array_entries proto_and_aquanaut) = Some proto_entry \<and>
   loadGamesData (JObj proto_and_aquanaut)
     = Some \<lparr>own = [(''aquanaut'', aquanaut)], proto = ObjectValue proto_entry\<rparr>"
proof -
  have 1: "well_formed_arrays proto_only" by code_simp
  have 2: "last_with_id ''__proto__'' (array_entries proto_only) = Some proto_entry" by code_simp
  have 3: "loadGamesData_try (JObj proto_only) = Inr \<lparr>own = [], proto = ObjectValue proto_entry\<rparr>"
    by code_simp
  have 4: "loadGamesData (JObj proto_only) = None" by code_simp
  have 5: "well_formed_arrays proto_and_aquanaut" by code_simp
  have 6: "last_with_id ''__proto__'' (array_entries proto_and_aquanaut) = Some proto_entry"
    by code_simp
  have 7: "loadGamesData (JObj proto_and_aquanaut)
             = Some \<lparr>own = [(''aquanaut'', aquanaut)], proto = ObjectValue proto_entry\<rparr>"
    by code_simp
  from 1 2 3 4 5 6 7 show ?thesis by blast
qed

section \<open>Resolving a key\<close>

lemma toLowerCase_no_upper:
  assumes "c \<in> set n" "65 \<le> (of_char c :: nat)" "(of_char c :: nat) \<le> 90"
  shows "toLowerCase s \<noteq> n"
proof
  assume "toLowerCase s = n"
  then have "c \<in> set (map toLowerCase_char s)" using assms(1) by (simp add: toLowerCase_def)
  then obtain d where "c = toLowerCase_char d" by auto
  then show False using toLowerCase_char_not_upper[of d] assms(2,3) by simp
qed

lemma lower_not_inherited:
  assumes "toLowerCase key \<noteq> ''constructor''"
  shows "toLowerCase key \<notin> set object_prototype_names"
proof -
  have 1: "toLowerCase key \<noteq> ''hasOwnProperty''"
    by (rule toLowerCase_no_upper[of "CHR ''O''"]) simp_all
  have 2: "toLowerCase key \<noteq> ''isPrototypeOf''"
    by (rule toLowerCase_no_upper[of "CHR ''P''"]) simp_all
  have 3: "toLowerCase key \<noteq> ''propertyIsEnumerable''"
    by (rule toLowerCase_no_upper[of "CHR ''I''"]) simp_all
  have 4: "toLowerCase key \<noteq> ''toLocaleString''"
    by (rule toLowerCase_no_upper[of "CHR ''L''"]) simp_all
  have 5: "toLowerCase key \<noteq> ''toString''"
    by (rule toLowerCase_no_upper[of "CHR ''S''"]) simp_all
  have 6: "toLowerCase key \<noteq> ''valueOf''"
    by (rule toLowerCase_no_upper[of "CHR ''O''"]) simp_all
  have 7: "toLowerCase key \<noteq> ''__defineGetter__''"
    by (rule toLowerCase_no_upper[of "CHR ''G''"]) simp_all
  have 8: "toLowerCase key \<noteq> ''__defineSetter__''"
    by (rule toLowerCase_no_upper[of "CHR ''S''"]) simp_all
  have 9: "toLowerCase key \<noteq> ''__lookupGetter__''"
    by (rule toLowerCase_no_upper[of "CHR ''G''"]) simp_all
  have 10: "toLowerCase key \<noteq> ''__lookupSetter__''"
    by (rule toLowerCase_no_upper[of "CHR ''S''"]) simp_all
  show ?thesis using assms 1 2 3 4 5 6 7 8 9 10
    by (simp add: object_prototype_names_def)
qed

lemma table_get_own:
  assumes "proto t = ObjectPrototype" "toLowerCase key \<noteq> ''constructor''"
    "toLowerCase key \<noteq> ''__proto__''"
  shows "table_get t (toLowerCase key) =
           (case map_of (own t) (toLowerCase key) of Some v \<Rightarrow> Val v | None \<Rightarrow> Undefined)"
  using assms lower_not_inherited[OF assms(2)]
  by (simp add: table_get_def object_prototype_get_def split: option.splits)

lemma entry_id_SomeD:
  "entry_id g = Some s \<Longrightarrow> \<exists>ps. g = JObj ps \<and> map_of ps ''id'' = Some (JStr s) \<and> s \<noteq> []"
  by (cases g) (auto split: option.splits json.splits if_splits)

lemma name_check:
  assumes "name_ok g"
  shows "bind_err (get_member g ''name'') (\<lambda>gname.
           bind_err (if truthy_val gname
                     then bind_err (call_makeUrlFriendly gname) (\<lambda>gameUrlName.
                            Inr (gameUrlName = searchName))
                     else Inr False) f)
         = f (name_slug g = Some searchName)"
  using assms by (cases g) (auto simp: bind_err_def split: option.splits json.splits)

lemma id_check:
  assumes "map_option toLowerCase (entry_id g) = Some k"
  shows "bind_err (get_member g ''id'') (\<lambda>gid.
           bind_err (if truthy_val gid
                     then bind_err (call_toLowerCase gid) (\<lambda>l. Inr (l = searchName))
                     else Inr False) f) = f (k = searchName)"
proof -
  from assms obtain s where s: "entry_id g = Some s" "toLowerCase s = k" by auto
  from entry_id_SomeD[OF s(1)] obtain ps where
    g: "g = JObj ps" and i: "map_of ps ''id'' = Some (JStr s)" and ne: "s \<noteq> []" by blast
  show ?thesis using g i ne s(2) by (simp add: bind_err_def)
qed

lemma find_loop_step:
  assumes "map_option toLowerCase (entry_id g) = Some k" "name_ok g"
  shows "find_loop ((k, g) # rest) searchName =
           (if k = searchName \<or> name_slug g = Some searchName then Inr (Found (Val g))
            else find_loop rest searchName)"
proof -
  have "find_loop ((k, g) # rest) searchName =
          (if k = searchName then Inr (Found (Val g))
           else if name_slug g = Some searchName then Inr (Found (Val g))
           else find_loop rest searchName)"
    by (simp only: find_loop.simps id_check[OF assms(1)] name_check[OF assms(2)])
  then show ?thesis by simp
qed

lemma find_loop_find:
  assumes "list_all (\<lambda>(k, g). map_option toLowerCase (entry_id g) = Some k) ps"
    "list_all (\<lambda>(k, g). name_ok g) ps"
  shows "find_loop ps searchName =
           Inr (case find (\<lambda>(k, g). k = searchName \<or> name_slug g = Some searchName) ps of
                  Some (k, g) \<Rightarrow> Found (Val g)
                | None \<Rightarrow> NotFound)"
  using assms
proof (induction ps)
  case Nil
  then show ?case by simp
next
  case (Cons p ps)
  obtain k g where p: "p = (k, g)" by (cases p)
  from Cons.prems p have a: "map_option toLowerCase (entry_id g) = Some k" "name_ok g"
    and r: "list_all (\<lambda>(k, g). map_option toLowerCase (entry_id g) = Some k) ps"
      "list_all (\<lambda>(k, g). name_ok g) ps" by auto
  show ?case unfolding p find_loop_step[OF a] using Cons.IH[OF r] by simp
qed

lemma map_of_find_key:
  "map_of ps k = Some v \<Longrightarrow> find (\<lambda>(k', g). k' = k) ps = Some (k, v)"
  by (induction ps) (auto split: if_splits)

lemma map_of_None_find_key:
  "map_of ps k = None \<Longrightarrow> find (\<lambda>(k', g). k' = k \<or> P g) ps = find (\<lambda>(k', g). P g) ps"
  by (induction ps) (auto split: if_splits)

lemma map_of_None_find_key2:
  "map_of ps k = None \<Longrightarrow> find (\<lambda>(k', g). k' = k) ps = None"
  by (induction ps) (auto split: if_splits)

lemma keyed_find_id:
  assumes "list_all (\<lambda>(k, g). map_option toLowerCase (entry_id g) = Some k) ps"
  shows "find (\<lambda>(k, g). map_option toLowerCase (entry_id g) = Some key) ps
           = find (\<lambda>(k, g). k = key) ps"
  using assms by (induction ps) auto

lemma keyed_value_truthy:
  assumes "list_all (\<lambda>(k, g). map_option toLowerCase (entry_id g) = Some k) ps"
    "map_of ps key = Some v"
  shows "truthy v"
proof -
  have "(key, v) \<in> set ps" using assms(2) by (rule map_of_SomeD)
  then have "map_option toLowerCase (entry_id v) = Some key"
    using assms(1) by (auto simp: list_all_iff)
  then obtain s where "entry_id v = Some s" by auto
  from entry_id_SomeD[OF this] show ?thesis by auto
qed

text \<open>
  Claim C2, as the code has it. Take a table that stores every entry under its own
  lower-cased id, in which the \<^verbatim>\<open>name\<close> of every entry is a string, falsy or missing, and
  whose prototype is \<^verbatim>\<open>Object.prototype\<close> (no entry with the id \<^verbatim>\<open>__proto__\<close> was
  stored), and a key whose lower-case form is not a property name that every object
  inherits (\<^verbatim>\<open>constructor\<close>, \<^verbatim>\<open>__proto__\<close>). Then: an empty key is not found; an entry
  whose id equals the key without regard to case is returned whatever its place in the
  table; only when there is none, the first entry in the table's enumeration order
  (integer-like keys first, the others in the order in which they were first stored)
  whose normalized name equals the lower-cased key is returned (the key is lower-cased,
  it is not normalized); otherwise the result is not found.
\<close>

theorem findGameByUrlName_resolution:
  assumes "keyed_by_id t" "names_ok t" "proto t = ObjectPrototype"
    and "toLowerCase rawKey \<noteq> ''constructor''" "toLowerCase rawKey \<noteq> ''__proto__''"
  shows "findGameByUrlName (Some t) rawKey =
           Inr (if rawKey = [] then NotFound
                else case find (\<lambda>(k, g). map_option toLowerCase (entry_id g)
                                            = Some (toLowerCase rawKey)) (own t) of
                       Some (k, g) \<Rightarrow> Found (Val g)
                     | None \<Rightarrow>
                         (case find (\<lambda>(k, g). name_slug g = Some (toLowerCase rawKey)) (own t) of
                            Some (k, g) \<Rightarrow> Found (Val g)
                          | None \<Rightarrow> NotFound))"
proof (cases "rawKey = []")
  case True
  then show ?thesis by (simp add: findGameByUrlName_def)
next
  case False
  let ?sn = "toLowerCase rawKey"
  have keyed: "list_all (\<lambda>(k, g). map_option toLowerCase (entry_id g) = Some k) (own t)"
    using assms(1) by (simp add: keyed_by_id_def)
  have names: "list_all (\<lambda>(k, g). name_ok g) (own t)"
    using assms(2) by (simp add: names_ok_def)
  have get: "table_get t ?sn = (case map_of (own t) ?sn of Some v \<Rightarrow> Val v | None \<Rightarrow> Undefined)"
    using assms(3,4,5) by (rule table_get_own)
  have byid: "find (\<lambda>(k, g). map_option toLowerCase (entry_id g) = Some ?sn) (own t)
                = find (\<lambda>(k, g). k = ?sn) (own t)"
    using keyed by (rule keyed_find_id)
  show ?thesis
  proof (cases "map_of (own t) ?sn")
    case (Some v)
    have "truthy v" using keyed Some by (rule keyed_value_truthy)
    then have "findGameByUrlName (Some t) rawKey = Inr (Found (Val v))"
      using False get Some by (simp add: findGameByUrlName_def Let_def)
    moreover have "find (\<lambda>(k, g). k = ?sn) (own t) = Some (?sn, v)"
      using Some by (rule map_of_find_key)
    ultimately show ?thesis using False byid by simp
  next
    case None
    have "findGameByUrlName (Some t) rawKey = find_loop (own t) ?sn"
      using False get None by (simp add: findGameByUrlName_def Let_def)
    also have "\<dots> = Inr (case find (\<lambda>(k, g). k = ?sn \<or> name_slug g = Some ?sn) (own t) of
                           Some (k, g) \<Rightarrow> Found (Val g) | None \<Rightarrow> NotFound)"
      using keyed names by (rule find_loop_find)
    also have "find (\<lambda>(k, g). k = ?sn \<or> name_slug g = Some ?sn) (own t)
                 = find (\<lambda>(k, g). name_slug g = Some ?sn) (own t)"
      using None by (rule map_of_None_find_key)
    finally show ?thesis
      using False byid map_of_None_find_key2[OF None] by simp
  qed
qed

theorem findGameByUrlName_resolution_witness:
  "loadGamesData small_catalog = Some small_table \<and>
   findGameByUrlName (Some small_table) ''BAD_ICE_CREAM'' = Inr (Found (Val bad_ice_cream)) \<and>
   findGameByUrlName (Some small_table) ''bad-ice-cream'' = Inr (Found (Val bad_ice_cream)) \<and>
   findGameByUrlName (Some small_table) ''Bad Ice Cream'' = Inr NotFound"
proof -
  have l: "loadGamesData small_catalog = Some small_table" by code_simp
  have k: "keyed_by_id small_table" by code_simp
  have n: "names_ok small_table" by code_simp
  have p: "proto small_table = ObjectPrototype" by (simp add: small_table_def)
  have a: "toLowerCase ''BAD_ICE_CREAM'' \<noteq> ''constructor''"
          "toLowerCase ''BAD_ICE_CREAM'' \<noteq> ''__proto__''" by code_simp+
  have b: "toLowerCase ''bad-ice-cream'' \<noteq> ''constructor''"
          "toLowerCase ''bad-ice-cream'' \<noteq> ''__proto__''" by code_simp+
  have c: "toLowerCase ''Bad Ice Cream'' \<noteq> ''constructor''"
          "toLowerCase ''Bad Ice Cream'' \<noteq> ''__proto__''" by code_simp+
  have 1: "findGameByUrlName (Some small_table) ''BAD_ICE_CREAM'' = Inr (Found (Val bad_ice_cream))"
    unfolding findGameByUrlName_resolution[OF k n p a] by code_simp
  have 2: "findGameByUrlName (Some small_table) ''bad-ice-cream'' = Inr (Found (Val bad_ice_cream))"
    unfolding findGameByUrlName_resolution[OF k n p b] by code_simp
  have 3: "findGameByUrlName (Some small_table) ''Bad Ice Cream'' = Inr NotFound"
    unfolding findGameByUrlName_resolution[OF k n p c] by code_simp
  from l 1 2 3 show ?thesis by blast
qed

theorem resolver_does_not_normalize_key:
  "findGameByUrlName (loadGamesData small_catalog) ''Bad Ice Cream'' = Inr NotFound \<and>
   resolve_spec ''Bad Ice Cream'' [aquanaut, bad_ice_cream] = Found (Val bad_ice_cream) \<and>
   findGameByUrlName (loadGamesData twin_catalog) ''twin-shot'' = Inr (Found (Val twin_shot_2)) \<and>
   resolve_spec ''twin-shot'' [twin_shot, twin_shot_2] = Found (Val twin_shot)"
proof -
  have a: "findGameByUrlName (loadGamesData small_catalog) ''Bad Ice Cream'' = Inr NotFound"
    by code_simp
  have b: "resolve_spec ''Bad Ice Cream'' [aquanaut, bad_ice_cream] = Found (Val bad_ice_cream)"
    by code_simp
  have c: "findGameByUrlName (loadGamesData twin_catalog) ''twin-shot''
             = Inr (Found (Val twin_shot_2))"
    by code_simp
  have d: "resolve_spec ''twin-shot'' [twin_shot, twin_shot_2] = Found (Val twin_shot)"
    by code_simp
  from a b c d show ?thesis by blast
qed

text \<open>
  Claim C3 at the key \<^verbatim>\<open>constructor\<close>: no entry of the catalog has this id or this
  normalized name, and the resolver returns the constructor that the table inherits from
  \<^verbatim>\<open>Object.prototype\<close>, not \<^verbatim>\<open>null\<close>.
\<close>

theorem inherited_property_is_found:
  "findGameByUrlName (loadGamesData small_catalog) ''constructor''
     = Inr (Found (Builtin ''constructor'')) \<and>
   resolve_spec ''constructor'' [aquanaut, bad_ice_cream] = NotFound"
proof -
  have a: "findGameByUrlName (loadGamesData small_catalog) ''constructor''
             = Inr (Found (Builtin ''constructor''))" by code_simp
  have b: "resolve_spec ''constructor'' [aquanaut, bad_ice_cream] = NotFound" by code_simp
  from a b show ?thesis by blast
qed

subsection \<open>Resolving the id of an entry, and the tables that are built from arrays\<close>

lemma toLowerCase_char_idem: "toLowerCase_char (toLowerCase_char c) = toLowerCase_char c"
proof (cases "(65 \<le> (of_char c :: nat) \<and> (of_char c :: nat) \<le> 90) \<or>
              (192 \<le> (of_char c :: nat) \<and> (of_char c :: nat) \<le> 222 \<and> (of_char c :: nat) \<noteq> 215)")
  case True
  then have "toLowerCase_char c = char_of ((of_char c :: nat) + 32)"
    by (simp add: toLowerCase_char_def Let_def)
  moreover have "(of_char (char_of ((of_char c :: nat) + 32)) :: nat) = of_char c + 32"
    using True by auto
  ultimately show ?thesis using True by (auto simp: toLowerCase_char_def Let_def)
next
  case False
  then have "toLowerCase_char c = c" by (auto simp: toLowerCase_char_def Let_def)
  then show ?thesis by simp
qed

lemma toLowerCase_idem: "toLowerCase (toLowerCase s) = toLowerCase s"
  by (simp add: toLowerCase_def toLowerCase_char_idem)

lemma toLowerCase_Nil_iff: "toLowerCase s = [] \<longleftrightarrow> s = []"
  by (simp add: toLowerCase_def)

lemma resolve_own_id:
  assumes "keyed_by_id t" "map_of (own t) k = Some e" "entry_id e = Some i"
  shows "findGameByUrlName (Some t) i = Inr (Found (Val e)) \<and>
         findGameByUrlName (Some t) (toLowerCase i) = Inr (Found (Val e))"
proof -
  have keyed: "list_all (\<lambda>(k, g). map_option toLowerCase (entry_id g) = Some k) (own t)"
    using assms(1) by (simp add: keyed_by_id_def)
  have "(k, e) \<in> set (own t)" using assms(2) by (rule map_of_SomeD)
  then have k: "toLowerCase i = k" using keyed assms(3) by (auto simp: list_all_iff)
  from entry_id_SomeD[OF assms(3)] have ne: "i \<noteq> []" by blast
  have tr: "truthy e" using keyed assms(2) by (rule keyed_value_truthy)
  have get: "table_get t (toLowerCase i) = Val e"
    using assms(2) k by (simp add: table_get_def)
  have 1: "findGameByUrlName (Some t) i = Inr (Found (Val e))"
    using ne get tr by (simp add: findGameByUrlName_def Let_def)
  have ne2: "toLowerCase i \<noteq> []" using ne by (simp add: toLowerCase_Nil_iff)
  have 2: "findGameByUrlName (Some t) (toLowerCase i) = Inr (Found (Val e))"
    using ne2 get tr by (simp add: findGameByUrlName_def Let_def toLowerCase_idem)
  from 1 2 show ?thesis by blast
qed

lemma set_insert_index: "set (insert_index k v ps) = insert (k, v) (set ps)"
proof (induction ps)
  case Nil
  then show ?case by simp
next
  case (Cons p ps)
  obtain a b where p: "p = (a, b)" by (cases p)
  show ?case
  proof (cases "is_array_index a \<and> decimal_value a < decimal_value k")
    case True
    then show ?thesis using Cons p by auto
  next
    case False
    then show ?thesis using p by auto
  qed
qed

lemma set_obj_set: "set (obj_set ps k v) \<subseteq> insert (k, v) (set ps)"
  by (auto simp: obj_set_def set_insert_index split: if_splits)

lemma add_game_invariant:
  assumes inv: "keyed_by_id t" "names_ok t" "proto t = ObjectPrototype"
    and g: "well_formed_entry g" "storable g"
    and r: "add_game t g = Inr t'"
  shows "keyed_by_id t' \<and> names_ok t' \<and> proto t' = ObjectPrototype"
proof -
  from entry_id_get_member[OF g(1)] obtain i where
    i: "get_member g ''id'' = Inr i" and
    c: "case entry_id g of Some s \<Rightarrow> i = Val (JStr s) \<and> s \<noteq> [] | None \<Rightarrow> \<not> truthy_val i"
    by blast
  show ?thesis
  proof (cases "entry_id g")
    case None
    then have "t' = t" using i c r by (simp add: add_game_def bind_err_def)
    then show ?thesis using inv by simp
  next
    case (Some s)
    then have t': "t' = table_set t (toLowerCase s) g"
      using i c r by (simp add: add_game_def bind_err_def)
    have np: "toLowerCase s \<noteq> ''__proto__''" and nm: "name_ok g"
      using g(2) Some by (simp_all add: storable_def)
    have own: "own t' = obj_set (own t) (toLowerCase s) g" and pr: "proto t' = proto t"
      using t' np by (simp_all add: table_set_def)
    have sub: "set (own t') \<subseteq> insert (toLowerCase s, g) (set (own t))"
      unfolding own by (rule set_obj_set)
    have "keyed_by_id t'"
      using inv(1) sub Some by (auto simp: keyed_by_id_def list_all_iff)
    moreover have "names_ok t'"
      using inv(2) sub nm by (auto simp: names_ok_def list_all_iff)
    ultimately show ?thesis using pr inv(3) by simp
  qed
qed

lemma add_games_invariant:
  assumes "keyed_by_id t" "names_ok t" "proto t = ObjectPrototype"
    and "\<forall>g \<in> set gs. well_formed_entry g \<and> storable g"
    and "add_games t gs = Inr t'"
  shows "keyed_by_id t' \<and> names_ok t' \<and> proto t' = ObjectPrototype"
  using assms
proof (induction gs arbitrary: t)
  case Nil
  then show ?case by simp
next
  case (Cons g gs)
  from Cons.prems(5) obtain t1 where
    t1: "add_game t g = Inr t1" and t2: "add_games t1 gs = Inr t'"
    by (auto simp: bind_err_def split: sum.splits)
  have g: "well_formed_entry g" "storable g" using Cons.prems(4) by auto
  from add_game_invariant[OF Cons.prems(1,2,3) g t1]
  have i1: "keyed_by_id t1" "names_ok t1" "proto t1 = ObjectPrototype" by auto
  have rest: "\<forall>g \<in> set gs. well_formed_entry g \<and> storable g" using Cons.prems(4) by auto
  from Cons.IH[OF i1 rest t2] show ?case .
qed

lemma other_collections_invariant:
  assumes "keyed_by_id t" "names_ok t" "proto t = ObjectPrototype"
    and "well_formed_arrays kvs" "\<forall>g \<in> set (other_entries kvs). storable g"
    and "other_collections t kvs = Inr t'"
  shows "keyed_by_id t' \<and> names_ok t' \<and> proto t' = ObjectPrototype"
  using assms
proof (induction kvs arbitrary: t)
  case Nil
  then show ?case by simp
next
  case (Cons p kvs)
  obtain k v where p: "p = (k, v)" by (cases p)
  let ?gs = "case v of JArr gs \<Rightarrow> if k \<noteq> ''nitromeGames'' then gs else [] | _ \<Rightarrow> []"
  have oe: "other_entries (p # kvs) = ?gs @ other_entries kvs"
    using p by (simp add: other_entries_def)
  have wf: "\<forall>g \<in> set ?gs. well_formed_entry g \<and> storable g"
    using Cons.prems(4,5) p unfolding oe
    by (auto simp: well_formed_arrays_def list_all_iff split: json.splits if_splits)
  have step: "(case v of
                 JArr games \<Rightarrow> if k \<noteq> ''nitromeGames'' then add_games t games else Inr t
               | _ \<Rightarrow> Inr t) = add_games t ?gs"
    by (simp split: json.splits)
  from Cons.prems(6) obtain t1 where
    t1: "add_games t ?gs = Inr t1" and t2: "other_collections t1 kvs = Inr t'"
    unfolding p other_collections.simps step by (auto simp: bind_err_def split: sum.splits)
  from add_games_invariant[OF Cons.prems(1,2,3) wf t1]
  have i1: "keyed_by_id t1" "names_ok t1" "proto t1 = ObjectPrototype" by auto
  have w: "well_formed_arrays kvs" using Cons.prems(4) by (simp add: well_formed_arrays_def)
  have s: "\<forall>g \<in> set (other_entries kvs). storable g" using Cons.prems(5) unfolding oe by auto
  from Cons.IH[OF i1 w s t2] show ?case .
qed

lemma loadGamesData_keyed:
  assumes "well_formed_arrays kvs" "\<forall>g \<in> set (array_entries kvs). storable g"
    and "map_of kvs ''nitromeGames'' = Some (JArr gs)"
    and "loadGamesData (JObj kvs) = Some t"
  shows "keyed_by_id t \<and> names_ok t \<and> proto t = ObjectPrototype"
proof -
  have dp: "direct_part kvs = empty_table" using assms(3) by (simp add: direct_part_def)
  have e: "keyed_by_id empty_table" "names_ok empty_table" "proto empty_table = ObjectPrototype"
    by (simp_all add: keyed_by_id_def names_ok_def empty_table_def)
  have "(''nitromeGames'', JArr gs) \<in> set kvs" using assms(3) by (rule map_of_SomeD)
  then have wf: "\<forall>g \<in> set gs. well_formed_entry g \<and> storable g"
    using assms(1,2,3) by (auto simp: well_formed_arrays_def list_all_iff array_entries_def)
  have so: "\<forall>g \<in> set (other_entries kvs). storable g"
    using assms(2) by (simp add: array_entries_def)
  from assms(4) have tr: "loadGamesData_try (JObj kvs) = Inr t"
    by (auto simp: loadGamesData_def split: sum.splits if_splits)
  then obtain t1 where t1: "add_games empty_table gs = Inr t1"
    and t2: "other_collections t1 kvs = Inr t"
    unfolding loadGamesData_try_object dp assms(3)
    by (auto simp: bind_err_def split: sum.splits)
  from add_games_invariant[OF e wf t1]
  have i1: "keyed_by_id t1" "names_ok t1" "proto t1 = ObjectPrototype" by auto
  from other_collections_invariant[OF i1 assms(1) so t2] show ?thesis .
qed

section \<open>A superseded load still completes\<close>

lemma loadGame_continue_currentGame:
  "currentGame (loadGame_continue g r i s) = currentGame s"
  by (simp add: loadGame_continue_def split: fetch_result.splits init_result.splits)

lemma response_keeps_currentGame:
  "currentGame (step games s (Response k r i)) = currentGame s"
  by (simp add: step_def loadGame_continue_currentGame)

lemma completions_keep_currentGame:
  "currentGame (foldl (step games) s (completions cs)) = currentGame s"
proof (induction cs arbitrary: s)
  case Nil
  then show ?case by (simp add: completions_def)
next
  case (Cons c cs)
  obtain k r i where c: "c = (k, r, i)" by (cases c) auto
  have "foldl (step games) s (completions (c # cs))
          = foldl (step games) (step games s (Response k r i)) (completions cs)"
    by (simp add: completions_def c)
  then show ?case using Cons.IH[of "step games s (Response k r i)"]
    by (simp add: response_keeps_currentGame)
qed

text \<open>
  Claim C6, as the code has it. Navigating to A and then at once to B, both in the
  catalog and with no other load in flight, leaves \<^verbatim>\<open>currentGame\<close> at B after every
  sequence of responses, in whatever order the two loads complete and however each of
  them ends: \<^verbatim>\<open>currentGame\<close> is written when a navigation starts and no completion
  writes it. But no call carries a sequence number and no completion is discarded: when
  A's load completes after B's, A's player replaces B's and the info panel shows A, while
  \<^verbatim>\<open>currentGame\<close> is B. When the loads complete in the order in which they were started,
  the player and the info panel end at B.
\<close>

theorem superseded_load_still_completes:
  assumes "find (\<lambda>g. game_id g = a) games = Some ga"
    and "find (\<lambda>g. game_id g = b) games = Some gb"
    and "in_flight s = []"
  shows "currentGame (run games s ([Navigate a, Navigate b] @ completions cs)) = Some b \<and>
         infoPanel (run games s (preempted a b)) = Some (a, game_path ga, game_name ga) \<and>
         rufflePlayer (run games s (preempted a b)) = PlayerElement (game_path ga) \<and>
         currentPlayer (run games s (preempted a b)) = Some (game_path ga) \<and>
         currentGame (run games s (preempted a b)) = Some b \<and>
         in_flight (run games s (preempted a b)) = [] \<and>
         infoPanel (run games s (in_order a b)) = Some (b, game_path gb, game_name gb) \<and>
         rufflePlayer (run games s (in_order a b)) = PlayerElement (game_path gb) \<and>
         currentGame (run games s (in_order a b)) = Some b"
proof -
  let ?s2 = "run games s [Navigate a, Navigate b]"
  have s2: "?s2 = s\<lparr>currentGame := Some b, in_flight := [ga, gb]\<rparr>"
    using assms by (simp add: run_def step_def loadGame_def)
  have ida: "game_id ga = a" using assms(1) by (auto simp: find_Some_iff)
  have idb: "game_id gb = b" using assms(2) by (auto simp: find_Some_iff)
  have "run games s ([Navigate a, Navigate b] @ completions cs)
          = foldl (step games) ?s2 (completions cs)"
    by (simp add: run_def)
  then have 1: "currentGame (run games s ([Navigate a, Navigate b] @ completions cs)) = Some b"
    by (simp only: completions_keep_currentGame) (simp add: s2)
  have p: "run games s (preempted a b)
             = step games (step games ?s2 (Response 1 FetchOk InitOk)) (Response 0 FetchOk InitOk)"
    by (simp add: run_def preempted_def)
  have 2: "run games s (preempted a b) =
             s\<lparr>currentGame := Some b, in_flight := [],
               rufflePlayer := PlayerElement (game_path ga),
               infoPanel := Some (a, game_path ga, game_name ga),
               currentPlayer := Some (game_path ga)\<rparr>"
    unfolding p s2 by (simp add: step_def loadGame_continue_def ida)
  have q: "run games s (in_order a b)
             = step games (step games ?s2 (Response 0 FetchOk InitOk)) (Response 0 FetchOk InitOk)"
    by (simp add: run_def in_order_def)
  have 3: "run games s (in_order a b) =
             s\<lparr>currentGame := Some b, in_flight := [],
               rufflePlayer := PlayerElement (game_path gb),
               infoPanel := Some (b, game_path gb, game_name gb),
               currentPlayer := Some (game_path gb)\<rparr>"
    unfolding q s2 by (simp add: step_def loadGame_continue_def idb)
  show ?thesis using 1 by (simp add: 2 3)
qed

theorem superseded_load_still_completes_witness:
  "find (\<lambda>g. game_id g = ''A'') [entry_A, entry_B] = Some entry_A \<and>
   find (\<lambda>g. game_id g = ''B'') [entry_A, entry_B] = Some entry_B \<and>
   in_flight initial_page = [] \<and>
   currentGame (run [entry_A, entry_B] initial_page
     ([Navigate ''A'', Navigate ''B''] @ completions [(0, FetchOk, InitOk), (0, FetchNotOk, InitOk)]))
     = Some ''B'' \<and>
   currentGame (run [entry_A, entry_B] initial_page (preempted ''A'' ''B'')) = Some ''B'' \<and>
   rufflePlayer (run [entry_A, entry_B] initial_page (preempted ''A'' ''B'')) = PlayerElement ''a.swf'' \<and>
   rufflePlayer (run [entry_A, entry_B] initial_page (in_order ''A'' ''B'')) = PlayerElement ''b.swf''"
proof -
  have a: "find (\<lambda>g. game_id g = ''A'') [entry_A, entry_B] = Some entry_A"
    by (simp add: entry_A_def entry_B_def)
  have b: "find (\<lambda>g. game_id g = ''B'') [entry_A, entry_B] = Some entry_B"
    by (simp add: entry_A_def entry_B_def)
  have c: "in_flight initial_page = []" by (simp add: initial_page_def)
  from superseded_load_still_completes[OF a b c,
      of "[(0, FetchOk, InitOk), (0, FetchNotOk, InitOk)]"] a b c
  show ?thesis
    by (simp add: entry_A_def entry_B_def)
qed

theorem stale_completion_overwrites_display:
  "currentGame (run [entry_A, entry_B] initial_page (preempted ''A'' ''B'')) = Some ''B'' \<and>
   infoPanel (run [entry_A, entry_B] initial_page (preempted ''A'' ''B''))
     = Some (''A'', ''a.swf'', ''Game A'') \<and>
   rufflePlayer (run [entry_A, entry_B] initial_page (preempted ''A'' ''B'')) = PlayerElement ''a.swf''"
  by (simp add: run_def preempted_def step_def loadGame_def loadGame_continue_def
      initial_page_def entry_A_def entry_B_def)

section \<open>The object returned by \<^verbatim>\<open>getGames\<close> is new\<close>

lemma lookup_append: "a < length h \<Longrightarrow> lookup (h @ xs) a = lookup h a"
  by (simp add: lookup_def nth_append)

lemma lookup_update_other: "a \<noteq> n \<Longrightarrow> lookup (h[n := x]) a = lookup h a"
  by (simp add: lookup_def)

lemma read_game_append: "a < length h \<Longrightarrow> read_game (h @ xs) a = read_game h a"
  by (simp add: read_game_def lookup_append)

lemma read_game_update_other: "a \<noteq> n \<Longrightarrow> read_game (h[n := x]) a = read_game h a"
  by (simp add: read_game_def lookup_update_other)

lemma read_table_frame:
  assumes "table_at h a ps" "length h \<le> n"
  shows "read_table ((h @ xs)[n := x]) (Ref a) = read_table h (Ref a)"
proof -
  have a: "a < length h" using assms(1) by (auto simp: table_at_def lookup_def split: if_splits)
  then have an: "a \<noteq> n" using assms(2) by simp
  have t: "lookup h a = Some (TableObject ps)" using assms(1) by (simp add: table_at_def)
  have l: "lookup ((h @ xs)[n := x]) a = Some (TableObject ps)"
    using a an t by (simp add: lookup_update_other lookup_append)
  have g: "read_game ((h @ xs)[n := x]) g = read_game h g" if "g < length h" for g
    using that assms(2) by (simp add: read_game_update_other read_game_append)
  have "map (\<lambda>(k, g). (k, read_game ((h @ xs)[n := x]) g)) ps
          = map (\<lambda>(k, g). (k, read_game h g)) ps"
    using assms(1) g by (auto simp: table_at_def list_all_iff)
  then show ?thesis using l t by (simp add: read_table_def)
qed


lemma alloc_games_extends:
  "\<exists>gs. snd (alloc_games h c) = h @ gs \<and> length gs = length c \<and>
        map fst (fst (alloc_games h c)) = map fst c \<and>
        list_all (\<lambda>(k, g). g < length h + length c) (fst (alloc_games h c)) \<and>
        map (\<lambda>(k, g). (k, read_game (h @ gs) g)) (fst (alloc_games h c))
          = map (\<lambda>(k, g). (k, JObj g)) c"
proof (induction c arbitrary: h)
  case Nil
  then show ?case by simp
next
  case (Cons p c)
  obtain k g where p: "p = (k, g)" by (cases p)
  let ?h1 = "h @ [GameObject g]"
  from Cons.IH[of ?h1] obtain gs where
    e: "snd (alloc_games ?h1 c) = ?h1 @ gs" and l: "length gs = length c" and
    f: "map fst (fst (alloc_games ?h1 c)) = map fst c" and
    b: "list_all (\<lambda>(k, g). g < length ?h1 + length c) (fst (alloc_games ?h1 c))" and
    r: "map (\<lambda>(k, g). (k, read_game (?h1 @ gs) g)) (fst (alloc_games ?h1 c))
          = map (\<lambda>(k, g). (k, JObj g)) c"
    by blast
  have a: "alloc_games h (p # c)
             = ((k, length h) # fst (alloc_games ?h1 c), snd (alloc_games ?h1 c))"
    using p by (simp add: alloc_def split: prod.splits)
  have rg: "read_game (h @ GameObject g # gs) (length h) = JObj g"
    by (simp add: read_game_def lookup_def nth_append)
  show ?case
    apply (rule exI[of _ "GameObject g # gs"])
    using a e l f b r rg p by (auto simp: list_all_iff)
qed

lemma spread_table:
  "lookup h a = Some (TableObject ps) \<Longrightarrow> spread h a = (Ref (length h), h @ [TableObject ps])"
  by (simp add: spread_def alloc_def)

lemma read_table_copy:
  assumes "table_at h a ps"
  shows "read_table (h @ [TableObject ps]) (Ref (length h)) = read_table h (Ref a)"
proof -
  have t: "lookup h a = Some (TableObject ps)" using assms by (simp add: table_at_def)
  have "map (\<lambda>(k, g). (k, read_game (h @ [TableObject ps]) g)) ps
          = map (\<lambda>(k, g). (k, read_game h g)) ps"
    using assms by (auto simp: table_at_def list_all_iff read_game_append)
  then show ?thesis using t by (simp add: read_table_def lookup_def)
qed

lemma getGames_enhanced_cached:
  assumes "table_at h a ps"
  shows "\<exists>n h'. getGames_enhanced (Some c) gamesData h = (Ref n, h') \<and> length h \<le> n \<and>
           read_table h' (Ref n)
             = Some \<lparr>own = map (\<lambda>(k, g). (k, JObj g)) c, proto = ObjectPrototype\<rparr> \<and>
           (\<forall>x. read_table (h'[n := x]) (Ref a) = read_table h (Ref a))"
proof -
  obtain ps0 h0 where ag0: "alloc_games h c = (ps0, h0)" by (cases "alloc_games h c")
  from alloc_games_extends[of h c] obtain gs where
    e: "h0 = h @ gs" and l: "length gs = length c" and
    b: "list_all (\<lambda>(k, g). g < length h + length c) ps0" and
    r: "map (\<lambda>(k, g). (k, read_game (h @ gs) g)) ps0 = map (\<lambda>(k, g). (k, JObj g)) c"
    unfolding ag0 by auto
  let ?ps = ps0
  let ?T = "TableObject ?ps"
  let ?h' = "h @ gs @ [?T, ?T]"
  let ?n = "length h + length c + 1"
  have ag: "alloc_games h c = (ps0, h @ gs)" using ag0 e by simp
  have pc: "parse_catalog h c = (length h + length c, h @ gs @ [?T])"
    using ag l by (simp add: parse_catalog_def alloc_def)
  have lk: "lookup (h @ gs @ [?T]) (length h + length c) = Some ?T"
    using l by (simp add: lookup_def nth_append)
  have res: "getGames_enhanced (Some c) gamesData h = (Ref ?n, ?h')"
    using pc spread_table[OF lk] l by (simp add: getGames_enhanced_def)
  have lk2: "lookup ?h' ?n = Some ?T" using l by (simp add: lookup_def nth_append)
  have "read_game ?h' g = read_game (h @ gs) g" if "g < length h + length c" for g
    using that l read_game_append[of g "h @ gs" "[?T, ?T]"] by simp
  then have "map (\<lambda>(k, g). (k, read_game ?h' g)) ?ps = map (\<lambda>(k, g). (k, read_game (h @ gs) g)) ?ps"
    using b by (auto simp: list_all_iff)
  then have rd: "read_table ?h' (Ref ?n)
                   = Some \<lparr>own = map (\<lambda>(k, g). (k, JObj g)) c, proto = ObjectPrototype\<rparr>"
    using lk2 r by (simp add: read_table_def)
  have fr: "read_table (?h'[?n := x]) (Ref a) = read_table h (Ref a)" for x
    using read_table_frame[OF assms, of ?n "gs @ [?T, ?T]" x] by simp
  show ?thesis using res rd fr by (intro exI[of _ ?n] exI[of _ ?h']) simp
qed

text \<open>
  Claim C10, as the code has it. The \<^verbatim>\<open>getGames\<close> of game-url-loader.js returns
  \<^verbatim>\<open>null\<close> while the catalog is not loaded, and otherwise a newly allocated object with
  the properties of the internal table, which refer to the same game objects. The
  \<^verbatim>\<open>getGames\<close> of the enhancer returns a new copy of the cached catalog whenever the cache
  yields one, whether or not the catalog is loaded, and what the first function returns
  otherwise. In every case the returned object is new: whatever a caller does to it, the
  table that resolution reads stays as it was.
\<close>

theorem getGames_returns_new_object:
  assumes "table_at h a ps"
  shows "getGames Null h = (Null, h) \<and>
         getGames (Ref a) h = (Ref (length h), h @ [TableObject ps]) \<and>
         read_table (h @ [TableObject ps]) (Ref (length h)) = read_table h (Ref a) \<and>
         (\<forall>x. read_table ((h @ [TableObject ps])[length h := x]) (Ref a) = read_table h (Ref a)) \<and>
         (\<forall>x key. findGameByUrlName (read_table ((h @ [TableObject ps])[length h := x]) (Ref a)) key
                     = findGameByUrlName (read_table h (Ref a)) key) \<and>
         getGames_enhanced None Null h = (Null, h) \<and>
         getGames_enhanced None (Ref a) h = getGames (Ref a) h \<and>
         (\<exists>n h'. getGames_enhanced (Some c) gamesData h = (Ref n, h') \<and> length h \<le> n \<and>
            read_table h' (Ref n)
              = Some \<lparr>own = map (\<lambda>(k, g). (k, JObj g)) c, proto = ObjectPrototype\<rparr> \<and>
            (\<forall>x. read_table (h'[n := x]) (Ref a) = read_table h (Ref a)))"
proof -
  have t: "lookup h a = Some (TableObject ps)" using assms by (simp add: table_at_def)
  have 1: "getGames Null h = (Null, h)" by (simp add: getGames_def)
  have 2: "getGames (Ref a) h = (Ref (length h), h @ [TableObject ps])"
    using spread_table[OF t] by (simp add: getGames_def)
  have 3: "read_table (h @ [TableObject ps]) (Ref (length h)) = read_table h (Ref a)"
    using assms by (rule read_table_copy)
  have 4: "read_table ((h @ [TableObject ps])[length h := x]) (Ref a) = read_table h (Ref a)" for x
    using read_table_frame[OF assms, of "length h" "[TableObject ps]" x] by simp
  have 5: "getGames_enhanced None Null h = (Null, h)"
    by (simp add: getGames_enhanced_def getGames_def)
  have 6: "getGames_enhanced None (Ref a) h = getGames (Ref a) h"
    by (simp add: getGames_enhanced_def)
  show ?thesis using 1 2 3 4 5 6 getGames_enhanced_cached[OF assms, of c gamesData] by simp
qed

theorem getGames_returns_new_object_witness:
  "table_at example_store 1 [(''aquanaut'', 0)] \<and>
   getGames (Ref 1) example_store = (Ref 2, example_store @ [TableObject [(''aquanaut'', 0)]]) \<and>
   read_table ((example_store @ [TableObject [(''aquanaut'', 0)]])[2 := TableObject []]) (Ref 1)
     = read_table example_store (Ref 1)"
proof -
  have a: "table_at example_store 1 [(''aquanaut'', 0)]"
    by (simp add: table_at_def example_store_def lookup_def)
  have l: "length example_store = 2" by (simp add: example_store_def)
  from getGames_returns_new_object[OF a] a l show ?thesis by simp
qed

theorem enhanced_getGames_prefers_cache:
  "getGames Null example_store = (Null, example_store) \<and>
   fst (getGames_enhanced (Some example_cache) Null example_store) = Ref 4 \<and>
   read_table (snd (getGames_enhanced (Some example_cache) (Ref 1) example_store))
      (fst (getGames_enhanced (Some example_cache) (Ref 1) example_store))
     = Some \<lparr>own = [(''old_game'', JObj [(''id'', JStr ''Old_Game''), (''name'', JStr ''Old Game'')])],
             proto = ObjectPrototype\<rparr> \<and>
   read_table example_store (Ref 1)
     = Some \<lparr>own = [(''aquanaut'', JObj [(''id'', JStr ''Aquanaut''), (''name'', JStr ''Aquanaut''),
                                         (''path'', JStr ''a.swf'')])],
             proto = ObjectPrototype\<rparr>"
  by (simp add: getGames_def getGames_enhanced_def parse_catalog_def alloc_def spread_def
      lookup_def read_table_def read_game_def example_store_def example_cache_def)

end
